theory Spec2Isabelle
  imports Complex_Main "HOL-Library.Multiset" "HOL-Library.Word" "HOL-Library.Log_Nat"
begin

section \<open>JavaScript numbers\<close>

text \<open>
  A JavaScript number is an IEEE 754 double. The finite doubles are rationals, and every
  arithmetic operation returns the double nearest to the exact result, ties going to the
  even significand. \<open>nearestDouble\<close> is that rounding: a double has a significand of 53
  bits and an exponent of at least \<open>-1022\<close> (below it the spacing stays \<open>2^-1074\<close>);
  a result whose exponent exceeds 1023 is \<^verbatim>\<open>Infinity\<close>.

  The numbers of \<^verbatim>\<open>getCombinations\<close> are never negative and never \<^verbatim>\<open>NaN\<close>: its loop
  runs with \<open>1 \<le> i \<le> r \<le> n / 2\<close>, so it multiplies and divides by positive integers
  only. \<open>jsMul\<close> and \<open>jsDiv\<close> are the two operations with such an integer as second
  operand (an integer this small is itself a double).
\<close>

datatype jsnumber = Num rat | Infinity

definition pow2 :: "int \<Rightarrow> rat" where
  "pow2 e = power_int 2 e"

text \<open>\<open>\<lfloor>log\<^sub>2 a\<rfloor>\<close> for \<open>a > 0\<close>, by the bit length of an integer.\<close>

definition ilog2 :: "rat \<Rightarrow> int" where
  "ilog2 a = (if 1 \<le> a then bitlen \<lfloor>a\<rfloor> - 1 else - bitlen (\<lceil>1 / a\<rceil> - 1))"

definition roundTiesToEven :: "rat \<Rightarrow> int" where
  "roundTiesToEven x =
     (let f = \<lfloor>x\<rfloor>; d = x - of_int f
      in if d < 1 / 2 then f else if 1 / 2 < d then f + 1 else if even f then f else f + 1)"

definition nearestDouble :: "rat \<Rightarrow> rat" where
  "nearestDouble x =
     (if x = 0 then 0
      else let a = \<bar>x\<bar>; e = max (ilog2 a) (- 1022) - 52
           in sgn x * of_int (roundTiesToEven (a / pow2 e)) * pow2 e)"

definition toNumber :: "rat \<Rightarrow> jsnumber" where
  "toNumber x = (let y = nearestDouble x in if 1023 < ilog2 \<bar>y\<bar> then Infinity else Num y)"

fun jsMul :: "jsnumber \<Rightarrow> int \<Rightarrow> jsnumber" where
  "jsMul (Num a) b = toNumber (a * of_int b)"
| "jsMul Infinity b = Infinity"

fun jsDiv :: "jsnumber \<Rightarrow> int \<Rightarrow> jsnumber" where
  "jsDiv (Num a) b = toNumber (a / of_int b)"
| "jsDiv Infinity b = Infinity"

text \<open>
  \<^verbatim>\<open>Math.round\<close> returns the integer nearest to its argument, the upper one of two that
  are equally near; that integer is a double whenever the argument is one.
\<close>

fun mathRound :: "jsnumber \<Rightarrow> jsnumber" where
  "mathRound (Num x) = Num (of_int (round x))"
| "mathRound Infinity = Infinity"

text \<open>\<^verbatim>\<open>x >= c\<close> for an integer \<open>c\<close>.\<close>

fun jsGe :: "jsnumber \<Rightarrow> int \<Rightarrow> bool" where
  "jsGe (Num x) c = (of_int c \<le> x)"
| "jsGe Infinity c = True"

section \<open>Combinatorics helpers of \<^verbatim>\<open>src/App.tsx\<close>\<close>

text \<open>The body of \<^verbatim>\<open>for (let i = 1; i <= r; i++) res = res * (n - i + 1) / i\<close>.\<close>

function combLoop :: "int \<Rightarrow> int \<Rightarrow> int \<Rightarrow> jsnumber \<Rightarrow> jsnumber" where
  "combLoop n r i res =
     (if i \<le> r then combLoop n r (i + 1) (jsDiv (jsMul res (n - i + 1)) i) else res)"
  by pat_completeness auto
termination
  by (relation "measure (\<lambda>(n, r, i, res). nat (r + 1 - i))") auto

declare combLoop.simps [simp del]

definition getCombinations :: "int \<Rightarrow> int \<Rightarrow> jsnumber" where
  "getCombinations n r0 =
     (if r0 > n then Num 0
      else if r0 = 0 \<or> r0 = n then Num 1
      else let r = (if (of_int r0 :: rat) > of_int n / 2 then n - r0 else r0)
           in mathRound (combLoop n r 1 (Num 1)))"

text \<open>
  The search of the pool-size effect. The loop variable is \<^verbatim>\<open>calculatedMinPool\<close>;
  the result also records which \<^verbatim>\<open>break\<close> left the loop (\<open>True\<close> for the one behind
  \<^verbatim>\<open>calculatedMinPool > 100\<close>) and the pool sizes that were handed to
  \<^verbatim>\<open>getCombinations\<close>, in order.
\<close>

function minPoolLoop :: "int \<Rightarrow> int \<Rightarrow> int \<Rightarrow> int list \<Rightarrow> int \<times> bool \<times> int list" where
  "minPoolLoop cardCount itemsPerCard calculatedMinPool tried =
     (if jsGe (getCombinations calculatedMinPool itemsPerCard) cardCount
      then (calculatedMinPool, False, tried @ [calculatedMinPool])
      else if calculatedMinPool + 1 > 100
      then (calculatedMinPool + 1, True, tried @ [calculatedMinPool])
      else minPoolLoop cardCount itemsPerCard (calculatedMinPool + 1)
             (tried @ [calculatedMinPool]))"
  by pat_completeness auto
termination
  by (relation "measure (\<lambda>(c, k, m, t). nat (100 - m))") auto

declare minPoolLoop.simps [simp del]

definition calculatedMinPool :: "int \<Rightarrow> int \<Rightarrow> int" where
  "calculatedMinPool cardCount itemsPerCard =
     fst (minPoolLoop cardCount itemsPerCard itemsPerCard [])"

definition searchCapped :: "int \<Rightarrow> int \<Rightarrow> bool" where
  "searchCapped cardCount itemsPerCard =
     fst (snd (minPoolLoop cardCount itemsPerCard itemsPerCard []))"

definition poolSizesTried :: "int \<Rightarrow> int \<Rightarrow> int list" where
  "poolSizesTried cardCount itemsPerCard =
     snd (snd (minPoolLoop cardCount itemsPerCard itemsPerCard []))"

definition suggestedMin :: "int \<Rightarrow> int \<Rightarrow> int" where
  "suggestedMin cardCount itemsPerCard =
     max (calculatedMinPool cardCount itemsPerCard) (itemsPerCard + 1)"

section \<open>Data model\<close>

text \<open>
  A JavaScript string is a sequence of UTF-16 code units; \<^verbatim>\<open>length\<close> counts them and a
  regular expression without the \<^verbatim>\<open>u\<close> flag matches them one by one.
\<close>

type_synonym jsstring = "16 word list"

text \<open>
  Modelled from the spec: \<^verbatim>\<open>src/types.ts\<close> (BingoItem, BingoCardData, SubjectContext,
  GeneratorStatus) is not among the sources. The fields are those of the spec's data
  model and of the uses in \<^verbatim>\<open>App.tsx\<close> and \<^verbatim>\<open>BingoCard.tsx\<close>; the type of an item's
  identifier is not visible there and is taken to be a string. \<open>GRATIS\<close> is the
  free-space marker that \<^verbatim>\<open>BingoCard.tsx\<close> tests a cell against.
\<close>

record BingoItem =
  item_id :: jsstring
  problem :: jsstring
  answer :: jsstring

datatype cell = Item BingoItem | GRATIS

record BingoCardData =
  card_id :: int
  cells :: "cell list"

record SubjectContext =
  subject :: jsstring
  isMath :: bool

datatype GeneratorStatus = IDLE | DETECTING | CONFIRMING | GENERATING | SUCCESS | ERROR

datatype GenerationMode = similar | exact

text \<open>The \<^verbatim>\<open>useState\<close> cells of the \<^verbatim>\<open>App\<close> component.\<close>

record AppState =
  status :: GeneratorStatus
  items :: "BingoItem list"
  cards :: "BingoCardData list"
  subjectContext :: SubjectContext
  tempSubjectName :: jsstring
  gridRows :: nat
  gridCols :: nat
  cardCount :: int
  poolSize :: int
  minPoolSize :: int
  topic :: jsstring
  selectedImage :: "jsstring option"
  generationMode :: GenerationMode
  isDownloading :: bool
  downloadProgress :: int

text \<open>
  What a handler does besides writing state: alerts, console output, calls of the AI
  service, and each \<^verbatim>\<open>setStatus\<close> in the order it happens.
\<close>

datatype event =
    Alert string
  | ConsoleError string
  | ConsoleErrorCaught
  | DetectSubjectCall jsstring "jsstring option"
  | GenerateBingoItemsCall SubjectContext jsstring int "jsstring option" GenerationMode
  | SetStatus GeneratorStatus

section \<open>The pool-size effect\<close>

definition getItemsPerCard :: "AppState \<Rightarrow> int" where
  "getItemsPerCard s = int (gridRows s * gridCols s)"

definition poolSizeEffect :: "AppState \<Rightarrow> AppState" where
  "poolSizeEffect s =
     (let itemsPerCard = getItemsPerCard s;
          suggested = suggestedMin (cardCount s) itemsPerCard
      in s\<lparr>minPoolSize := suggested, poolSize := suggested\<rparr>)"

section \<open>Shuffling and card generation\<close>

text \<open>
  \<^verbatim>\<open>Math.random()\<close> is a source of numbers in \<open>[0, 1)\<close>: \<open>rnd p\<close> is the result of call
  number \<open>p\<close> of the current handler, and every function that draws returns the number
  of the next call. The statements that depend on the draws assume \<open>unitInterval rnd\<close>.
\<close>

type_synonym random = "nat \<Rightarrow> rat"

definition unitInterval :: "random \<Rightarrow> bool" where
  "unitInterval rnd = (\<forall>p. 0 \<le> rnd p \<and> rnd p < 1)"

text \<open>
  The loop \<^verbatim>\<open>for (let i = arr.length - 1; i > 0; i--)\<close> of \<^verbatim>\<open>shuffleArray\<close>, entered
  with \<open>i\<close>. The destructuring swap reads both cells before it writes either.
\<close>

fun shuffleLoop :: "random \<Rightarrow> nat \<Rightarrow> nat \<Rightarrow> 'a list \<Rightarrow> 'a list \<times> nat" where
  "shuffleLoop rnd p 0 arr = (arr, p)"
| "shuffleLoop rnd p (Suc i) arr =
     (let j = nat \<lfloor>rnd p * of_nat (Suc i + 1)\<rfloor>
      in shuffleLoop rnd (Suc p) i (arr[Suc i := arr ! j, j := arr ! Suc i]))"

text \<open>
  For the empty array \<^verbatim>\<open>arr.length - 1\<close> is \<open>-1\<close> and the loop body never runs, as
  with the truncated \<open>0 - 1 = 0\<close> here.
\<close>

definition shuffleArray :: "random \<Rightarrow> nat \<Rightarrow> 'a list \<Rightarrow> 'a list \<times> nat" where
  "shuffleArray rnd p array = shuffleLoop rnd p (length array - 1) array"

text \<open>
  The loop of \<^verbatim>\<open>generateCards\<close>, entered with \<open>i\<close> and the cards pushed so far.
  \<open>None\<close> is the early \<^verbatim>\<open>return\<close> behind \<^verbatim>\<open>console.error\<close>.
\<close>

function generateCardsLoop ::
  "random \<Rightarrow> nat \<Rightarrow> nat \<Rightarrow> BingoItem list \<Rightarrow> int \<Rightarrow> int \<Rightarrow> BingoCardData list
     \<Rightarrow> BingoCardData list option" where
  "generateCardsLoop rnd p itemsNeededPerCard pool cnt i newCards =
     (if i \<le> cnt then
        (case shuffleArray rnd p pool of (shuffled, p') \<Rightarrow>
           if length shuffled < itemsNeededPerCard then None
           else generateCardsLoop rnd p' itemsNeededPerCard pool cnt (i + 1)
                  (newCards @ [\<lparr>card_id = i,
                                 cells = map Item (take itemsNeededPerCard shuffled)\<rparr>]))
      else Some newCards)"
  by pat_completeness auto
termination
  by (relation "measure (\<lambda>(rnd, p, k, pool, cnt, i, newCards). nat (cnt + 1 - i))") auto

declare generateCardsLoop.simps [simp del]

definition generateCards ::
  "random \<Rightarrow> BingoItem list \<Rightarrow> int \<Rightarrow> AppState \<Rightarrow> event list \<times> AppState" where
  "generateCards rnd pool cnt s =
     (case generateCardsLoop rnd 0 (gridRows s * gridCols s) pool cnt 1 [] of
        None \<Rightarrow> ([ConsoleError ''Not enough items to fill a card!''], s)
      | Some newCards \<Rightarrow> ([], s\<lparr>cards := newCards\<rparr>))"

section \<open>Handlers\<close>

text \<open>
  The AI service (\<^verbatim>\<open>services/geminiService\<close>) is outside the program: its two calls
  are parameters, \<open>None\<close> standing for a rejected promise.
\<close>

type_synonym detectSubject = "jsstring \<Rightarrow> jsstring option \<Rightarrow> SubjectContext option"

type_synonym generateBingoItems =
  "SubjectContext \<Rightarrow> jsstring \<Rightarrow> int \<Rightarrow> jsstring option \<Rightarrow> GenerationMode
     \<Rightarrow> BingoItem list option"

text \<open>\<^verbatim>\<open>!selectedImage\<close> holds for \<^verbatim>\<open>null\<close> and for the empty string.\<close>

definition falsyImage :: "jsstring option \<Rightarrow> bool" where
  "falsyImage img = (case img of None \<Rightarrow> True | Some str \<Rightarrow> str = [])"

definition handleStartGeneration :: "detectSubject \<Rightarrow> AppState \<Rightarrow> event list \<times> AppState" where
  "handleStartGeneration detect s =
     (if topic s = [] \<and> falsyImage (selectedImage s)
      then ([Alert ''Voer een onderwerp in of upload een afbeelding.''], s)
      else
        (case detect (topic s) (selectedImage s) of
           Some context \<Rightarrow>
             ([SetStatus DETECTING, DetectSubjectCall (topic s) (selectedImage s),
               SetStatus CONFIRMING],
              s\<lparr>subjectContext := context, tempSubjectName := subject context,
                status := CONFIRMING\<rparr>)
         | None \<Rightarrow>
             ([SetStatus DETECTING, DetectSubjectCall (topic s) (selectedImage s),
               ConsoleErrorCaught, SetStatus ERROR],
              s\<lparr>status := ERROR\<rparr>)))"

definition handleConfirmAndGenerate ::
  "generateBingoItems \<Rightarrow> random \<Rightarrow> AppState \<Rightarrow> event list \<times> AppState" where
  "handleConfirmAndGenerate generate rnd s =
     (let finalContext = (subjectContext s)\<lparr>subject := tempSubjectName s\<rparr>;
          s1 = s\<lparr>subjectContext := finalContext\<rparr>;
          call = GenerateBingoItemsCall finalContext (topic s) (poolSize s)
                   (selectedImage s) (generationMode s)
      in case generate finalContext (topic s) (poolSize s) (selectedImage s)
                (generationMode s) of
           Some pool \<Rightarrow>
             (case generateCards rnd pool (cardCount s) (s1\<lparr>items := pool\<rparr>) of
                (evs, s2) \<Rightarrow>
                  ([SetStatus GENERATING, call] @ evs @ [SetStatus SUCCESS],
                   s2\<lparr>status := SUCCESS\<rparr>))
         | None \<Rightarrow>
             ([SetStatus GENERATING, call, ConsoleErrorCaught, SetStatus ERROR],
              s1\<lparr>status := ERROR\<rparr>))"

definition handleRegenerateCardsOnly :: "random \<Rightarrow> AppState \<Rightarrow> event list \<times> AppState" where
  "handleRegenerateCardsOnly rnd s =
     (if length (items s) > 0 then generateCards rnd (items s) (cardCount s) s
      else ([], s))"

definition isAICall :: "event \<Rightarrow> bool" where
  "isAICall e =
     (case e of DetectSubjectCall t img \<Rightarrow> True
              | GenerateBingoItemsCall c t n img m \<Rightarrow> True
              | _ \<Rightarrow> False)"

section \<open>Text or math: \<^verbatim>\<open>shouldRenderAsText\<close>\<close>

text \<open>\<^verbatim>\<open>/[\\={}^_]/\<close>: backslash, \<open>=\<close>, \<open>{\<close>, \<open>}\<close>, \<open>^\<close>, \<open>_\<close>.\<close>

definition isMarkupChar :: "16 word \<Rightarrow> bool" where
  "isMarkupChar c = (c = 0x5C \<or> c = 0x3D \<or> c = 0x7B \<or> c = 0x7D \<or> c = 0x5E \<or> c = 0x5F)"

text \<open>\<^verbatim>\<open>\d\<close>: the ASCII digits.\<close>

definition isDigit :: "16 word \<Rightarrow> bool" where
  "isDigit c = (0x30 \<le> c \<and> c \<le> 0x39)"

text \<open>\<^verbatim>\<open>\s\<close>: the white space and line terminator code points of ECMAScript.\<close>

definition isWhiteSpace :: "16 word \<Rightarrow> bool" where
  "isWhiteSpace c =
     ((0x09 \<le> c \<and> c \<le> 0x0D) \<or> c = 0x20 \<or> c = 0xA0 \<or> c = 0x1680
      \<or> (0x2000 \<le> c \<and> c \<le> 0x200A) \<or> c = 0x2028 \<or> c = 0x2029 \<or> c = 0x202F
      \<or> c = 0x205F \<or> c = 0x3000 \<or> c = 0xFEFF)"

text \<open>The class \<^verbatim>\<open>[a-zA-Z\u00C0-\u00FF\s.,?!'"-]\<close>.\<close>

definition isTextChar :: "16 word \<Rightarrow> bool" where
  "isTextChar c =
     ((0x61 \<le> c \<and> c \<le> 0x7A) \<or> (0x41 \<le> c \<and> c \<le> 0x5A) \<or> (0xC0 \<le> c \<and> c \<le> 0xFF)
      \<or> isWhiteSpace c
      \<or> c = 0x2E \<or> c = 0x2C \<or> c = 0x3F \<or> c = 0x21 \<or> c = 0x27 \<or> c = 0x22 \<or> c = 0x2D)"

text \<open>The copy in \<^verbatim>\<open>src/App.tsx\<close>, used by the calling list.\<close>

definition shouldRenderAsText_App :: "jsstring \<Rightarrow> bool" where
  "shouldRenderAsText_App content =
     (if content = [] then True
      else if list_ex isMarkupChar content then False
      else if list_ex isDigit content then False
      else if length content \<le> 2 then False
      else content \<noteq> [] \<and> list_all isTextChar content)"

text \<open>The copy in \<^verbatim>\<open>src/components/BingoCard.tsx\<close>, used by the card view.\<close>

definition shouldRenderAsText_BingoCard :: "jsstring \<Rightarrow> bool" where
  "shouldRenderAsText_BingoCard content =
     (if content = [] then True
      else if list_ex isMarkupChar content then False
      else if list_ex isDigit content then False
      else if length content \<le> 2 then False
      else content \<noteq> [] \<and> list_all isTextChar content)"

text \<open>
  The two call sites: \<^verbatim>\<open>answerIsText\<close> of the calling list and \<^verbatim>\<open>isTextOverride\<close> of
  a card cell, whose content is \<^verbatim>\<open>item?.answer || ''\<close>.
\<close>

definition answerIsText :: "SubjectContext \<Rightarrow> BingoItem \<Rightarrow> bool" where
  "answerIsText ctx item = (isMath ctx \<and> shouldRenderAsText_App (answer item))"

definition isTextOverride :: "bool \<Rightarrow> cell \<Rightarrow> bool" where
  "isTextOverride math c =
     (let content = (case c of GRATIS \<Rightarrow> [] | Item item \<Rightarrow> answer item)
      in math \<and> shouldRenderAsText_BingoCard content)"

section \<open>Initial state\<close>

text \<open>The arguments of the \<^verbatim>\<open>useState\<close> calls.\<close>

definition initialState :: AppState where
  "initialState =
     \<lparr>status = IDLE, items = [], cards = [],
      subjectContext = \<lparr>subject = [], isMath = False\<rparr>, tempSubjectName = [],
      gridRows = 3, gridCols = 3, cardCount = 30, poolSize = 13, minPoolSize = 9,
      topic = [], selectedImage = None, generationMode = similar,
      isDownloading = False, downloadProgress = 0\<rparr>"

section \<open>Predicates and sample data\<close>

text \<open>A card of \<open>k\<close> cells, each of them an item of the pool.\<close>

definition cardDrawnFrom :: "BingoItem list \<Rightarrow> nat \<Rightarrow> BingoCardData \<Rightarrow> bool" where
  "cardDrawnFrom pool k c =
     (length (cells c) = k \<and> list_all (\<lambda>x. x \<in> Item ` set pool) (cells c))"

text \<open>Pools of pairwise different items, and a constant source of draws.\<close>

definition sampleItem :: "nat \<Rightarrow> BingoItem" where
  "sampleItem n = \<lparr>item_id = [of_nat n], problem = [], answer = []\<rparr>"

definition samplePool :: "nat \<Rightarrow> BingoItem list" where
  "samplePool n = map sampleItem [0..<n]"

definition rndHalf :: random where
  "rndHalf = (\<lambda>p. 1 / 2)"

text \<open>
  A state after a generation with a 3 by 3 grid, a pool of 13 items and one card, and
  the same state once the user has selected a 4 by 4 grid (the pool-size effect has run,
  the pool and the cards are those of the 3 by 3 grid).
\<close>

definition staleCard :: BingoCardData where
  "staleCard = \<lparr>card_id = 1, cells = map Item (take 9 (samplePool 13))\<rparr>"

definition staleState :: AppState where
  "staleState =
     initialState\<lparr>status := SUCCESS, items := samplePool 13, cards := [staleCard],
       cardCount := 1\<rparr>"

definition enlargedState :: AppState where
  "enlargedState = poolSizeEffect (staleState\<lparr>gridRows := 4, gridCols := 4\<rparr>)"

text \<open>The initial state with a 5 by 5 grid and 5574440580220513 requested cards.\<close>

definition hugeCountState :: AppState where
  "hugeCountState =
     initialState\<lparr>gridRows := 5, gridCols := 5, cardCount := 5574440580220513\<rparr>"

text \<open>The word \<^verbatim>\<open>Herleid\<close> of the comment in \<^verbatim>\<open>BingoCard.tsx\<close>, in code units.\<close>

definition herleid :: jsstring where
  "herleid = [0x48, 0x65, 0x72, 0x6C, 0x65, 0x69, 0x64]"

section \<open>Rounding to the nearest double\<close>

lemma pow2_pos: "0 < pow2 e"
  by (simp add: pow2_def zero_less_power_int)

lemma pow2_add: "pow2 (a + b) = pow2 a * pow2 b"
  by (simp add: pow2_def power_int_add)

lemma pow2_nat: "pow2 (int n) = 2 ^ n"
  by (simp add: pow2_def)

lemma pow2_strict_mono: "a < b \<Longrightarrow> pow2 a < pow2 b"
  by (simp add: pow2_def power_int_strict_increasing)

lemma ilog2_binade:
  assumes "0 \<le> j" and "pow2 j \<le> x" and "x < pow2 (j + 1)"
  shows "ilog2 x = j"
proof -
  define J where "J = nat j"
  have j: "j = int J" using assms(1) by (simp add: J_def)
  have lo: "(2::rat) ^ J \<le> x" using assms(2) by (simp add: j pow2_nat)
  have "j + 1 = int (J + 1)" using j by simp
  then have "pow2 (j + 1) = 2 ^ (J + 1)" by (simp only: pow2_nat)
  then have hi: "x < (2::rat) ^ (J + 1)"
    using assms(3) by simp
  have one: "1 \<le> x"
    using lo one_le_power [of "2::rat" J] by linarith
  have "of_int ((2::int) ^ J) \<le> x" using lo by simp
  then have flo: "(2::int) ^ J \<le> \<lfloor>x\<rfloor>" by (simp only: le_floor_iff)
  have "x < of_int ((2::int) ^ (J + 1))" using hi by simp
  then have fhi: "\<lfloor>x\<rfloor> < (2::int) ^ (J + 1)" by (simp only: floor_less_iff)
  have n1: "nat (1 + int J) = Suc J" by linarith
  have "bitlen \<lfloor>x\<rfloor> \<le> int (J + 1)"
    using fhi by (simp add: bitlen_le_iff_power n1)
  moreover have "int (J + 1) \<le> bitlen \<lfloor>x\<rfloor>"
    using flo by (simp add: bitlen_ge_iff_power n1)
  ultimately have "bitlen \<lfloor>x\<rfloor> = int J + 1" by simp
  then show ?thesis using one by (simp add: ilog2_def j)
qed

lemma roundTiesToEven_bounds: "\<lfloor>t\<rfloor> \<le> roundTiesToEven t \<and> roundTiesToEven t \<le> \<lfloor>t\<rfloor> + 1"
  by (simp add: roundTiesToEven_def Let_def)

lemma roundTiesToEven_of_int: "roundTiesToEven (of_int z) = z"
  by (simp add: roundTiesToEven_def Let_def)

lemma toNumber_binade:
  assumes lo: "pow2 (52 + e) \<le> x" and hi: "x < pow2 (53 + e)"
    and e: "- 52 \<le> e" "e \<le> 970"
  shows "toNumber x = Num (of_int (roundTiesToEven (x / pow2 e)) * pow2 e)"
proof -
  define m where "m = roundTiesToEven (x / pow2 e)"
  define y where "y = of_int m * pow2 e"
  have xpos: "0 < x" using lo pow2_pos [of "52 + e"] by linarith
  have "ilog2 x = 52 + e"
    using e(1) lo hi by (intro ilog2_binade) (simp_all add: add.commute add.left_commute)
  then have ex: "max (ilog2 \<bar>x\<bar>) (- 1022) - 52 = e"
    using xpos e(1) by simp
  have near: "nearestDouble x = y"
    using xpos ex by (simp add: nearestDouble_def Let_def y_def m_def)
  have tlo: "2 ^ 52 \<le> x / pow2 e"
  proof -
    have "pow2 52 * pow2 e \<le> x" using lo by (simp add: pow2_add)
    then have "pow2 52 \<le> x / pow2 e" using pow2_pos [of e] by (simp add: pos_le_divide_eq)
    then show ?thesis using pow2_nat [of 52] by simp
  qed
  have thi: "x / pow2 e < 2 ^ 53"
  proof -
    have "x < pow2 53 * pow2 e" using hi by (simp add: pow2_add)
    then have "x / pow2 e < pow2 53" using pow2_pos [of e] by (simp add: pos_divide_less_eq)
    then show ?thesis using pow2_nat [of 53] by simp
  qed
  have "of_int ((2::int) ^ 52) \<le> x / pow2 e" using tlo by simp
  then have "(2::int) ^ 52 \<le> \<lfloor>x / pow2 e\<rfloor>" by (simp only: le_floor_iff)
  then have mlo: "(2::int) ^ 52 \<le> m"
    using roundTiesToEven_bounds [of "x / pow2 e"] unfolding m_def by linarith
  have "x / pow2 e < of_int ((2::int) ^ 53)" using thi by simp
  then have "\<lfloor>x / pow2 e\<rfloor> < (2::int) ^ 53" by (simp only: floor_less_iff)
  then have mhi: "m \<le> (2::int) ^ 53"
    using roundTiesToEven_bounds [of "x / pow2 e"] unfolding m_def by linarith
  have ylo: "pow2 (52 + e) \<le> y"
  proof -
    have "(of_int ((2::int) ^ 52) :: rat) \<le> of_int m" using mlo by (simp only: of_int_le_iff)
    then have "pow2 52 \<le> of_int m" using pow2_nat [of 52] by simp
    then have "pow2 52 * pow2 e \<le> of_int m * pow2 e"
      using pow2_pos [of e] by (simp add: mult_right_mono)
    then show ?thesis by (simp add: pow2_add y_def)
  qed
  have yhi: "y < pow2 (54 + e)"
  proof -
    have "(of_int m :: rat) \<le> of_int ((2::int) ^ 53)" using mhi by (simp only: of_int_le_iff)
    then have "of_int m \<le> pow2 53" using pow2_nat [of 53] by simp
    then have "of_int m * pow2 e \<le> pow2 53 * pow2 e"
      using pow2_pos [of e] by (simp add: mult_right_mono)
    then have "y \<le> pow2 (53 + e)" by (simp add: pow2_add y_def)
    then show ?thesis using pow2_strict_mono [of "53 + e" "54 + e"] by simp
  qed
  have ypos: "0 < y" using ylo pow2_pos [of "52 + e"] by linarith
  have "ilog2 y \<le> 53 + e"
  proof (cases "y < pow2 (53 + e)")
    case True
    then have "ilog2 y = 52 + e"
      using e(1) ylo by (intro ilog2_binade) (simp_all add: add.commute add.left_commute)
    then show ?thesis by simp
  next
    case False
    then have "pow2 (53 + e) \<le> y" by simp
    then have "ilog2 y = 53 + e"
      using e(1) yhi by (intro ilog2_binade) (simp_all add: add.commute add.left_commute)
    then show ?thesis by simp
  qed
  then have "\<not> 1023 < ilog2 \<bar>y\<bar>" using e(2) ypos by simp
  then show ?thesis
    by (simp add: toNumber_def Let_def near) (simp add: y_def m_def)
qed

lemma toNumber_zero: "toNumber 0 = Num 0"
  by (simp add: toNumber_def nearestDouble_def ilog2_def bitlen_alt_def)

lemma toNumber_of_int:
  assumes "0 \<le> z" and "z < 2 ^ 53"
  shows "toNumber (of_int z) = Num (of_int z)"
proof (cases "z = 0")
  case True
  then show ?thesis by (simp add: toNumber_zero)
next
  case False
  then have pos: "0 < z" using assms(1) by simp
  define b where "b = nat (bitlen z)"
  define e where "e = bitlen z - 53"
  have b1: "1 \<le> bitlen z"
    using pos bitlen_eq_zero_iff [of z] bitlen_nonneg [of z] by linarith
  have b53: "bitlen z \<le> 53"
    using assms(2) by (simp add: bitlen_le_iff_power)
  have bl: "bitlen z = int b" using b1 by (simp add: b_def)
  have lo: "pow2 (52 + e) \<le> of_int z"
  proof -
    have "(2::int) ^ nat (bitlen z - 1) \<le> z" using bitlen_bounds [OF pos] by blast
    then have "(of_int ((2::int) ^ nat (bitlen z - 1)) :: rat) \<le> of_int z"
      by (simp only: of_int_le_iff)
    moreover have "52 + e = int (nat (bitlen z - 1))" using b1 by (simp add: e_def)
    ultimately show ?thesis by (simp only: pow2_nat) simp
  qed
  have hi: "of_int z < pow2 (53 + e)"
  proof -
    have "z < (2::int) ^ nat (bitlen z)" using bitlen_bounds [OF pos] by blast
    then have "(of_int z :: rat) < of_int ((2::int) ^ nat (bitlen z))"
      by (simp only: of_int_less_iff)
    moreover have "53 + e = int (nat (bitlen z))" using b1 by (simp add: e_def)
    ultimately show ?thesis by (simp only: pow2_nat) simp
  qed
  have e: "- 52 \<le> e" "e \<le> 970" using b1 b53 by (simp_all add: e_def)
  define k where "k = nat (- e)"
  have ek: "e = - int k" using b53 by (simp add: k_def e_def)
  have inv: "pow2 e * 2 ^ k = 1"
    using pow2_add [of e "int k"] by (simp add: ek pow2_nat pow2_def)
  then have "of_int z / pow2 e = of_int (z * 2 ^ k)"
    using pow2_pos [of e] by (simp add: field_simps)
  then have "roundTiesToEven (of_int z / pow2 e) = z * 2 ^ k"
    by (simp only: roundTiesToEven_of_int)
  then have "of_int (roundTiesToEven (of_int z / pow2 e)) * pow2 e = of_int z * (pow2 e * 2 ^ k)"
    by simp
  then show ?thesis
    using toNumber_binade [OF lo hi e] by (simp add: inv)
qed

lemma toNumber_of_nat: "n < 2 ^ 53 \<Longrightarrow> toNumber (of_nat n) = Num (of_nat n)"
  using toNumber_of_int [of "int n"] by simp

section \<open>\<^verbatim>\<open>getCombinations\<close> and the binomial coefficient\<close>

lemma choose_step:
  assumes "k < n"
  shows "(n choose k) * (n - k) = (n choose Suc k) * Suc k"
proof -
  obtain b where n: "n = Suc (k + b)"
    using assms less_iff_Suc_add by auto
  have "Suc k * (Suc (k + b) choose Suc k) = Suc b * (Suc (k + b) choose k)"
    by (rule Suc_times_binomial_add)
  then show ?thesis
    using n by (simp add: mult.commute)
qed

lemma choose_le_next:
  assumes "2 * Suc j \<le> n"
  shows "n choose j \<le> n choose Suc j"
proof -
  have jn: "j < n" using assms by simp
  have "(n choose j) * Suc j \<le> (n choose j) * (n - j)"
    using assms by (intro mult_le_mono2) simp
  also have "\<dots> = (n choose Suc j) * Suc j" by (rule choose_step [OF jn])
  finally show ?thesis
    using mult_le_cancel2 [of "n choose j" "Suc j" "n choose Suc j"] by blast
qed

lemma choose_prod_mono:
  assumes "i \<le> r" and "2 * r \<le> n"
  shows "i * (n choose i) \<le> r * (n choose r)"
  using assms
proof (induction r)
  case 0
  then show ?case by simp
next
  case (Suc r)
  show ?case
  proof (cases "i = Suc r")
    case True
    then show ?thesis by simp
  next
    case False
    then have "i * (n choose i) \<le> r * (n choose r)"
      using Suc by simp
    also have "\<dots> \<le> Suc r * (n choose Suc r)"
      using choose_le_next [of r n] Suc.prems(2) by (intro mult_le_mono) simp_all
    finally show ?thesis .
  qed
qed

lemma combLoop_done: "r < i \<Longrightarrow> combLoop n r i res = res"
  by (subst combLoop.simps) simp

lemma combLoop_exact_step:
  assumes "j < r" and "2 * r \<le> n" and "Suc j * (n choose Suc j) < 2 ^ 53"
  shows "combLoop (int n) (int r) (int (Suc j)) (Num (of_nat (n choose j)))
       = combLoop (int n) (int r) (int (Suc (Suc j))) (Num (of_nat (n choose Suc j)))"
proof -
  have jn: "j < n" using assms(1,2) by simp
  have e: "(of_int (int n - int (Suc j) + 1) :: rat) = of_nat (n - j)"
    using jn by (simp add: of_nat_diff)
  have "(of_nat (n choose j) :: rat) * of_nat (n - j) = of_nat ((n choose Suc j) * Suc j)"
    unfolding of_nat_mult [symmetric] by (rule arg_cong [OF choose_step [OF jn]])
  then have m: "jsMul (Num (of_nat (n choose j))) (int n - int (Suc j) + 1)
                  = Num (of_nat ((n choose Suc j) * Suc j))"
    using assms(3) toNumber_of_nat [of "(n choose Suc j) * Suc j"]
    by (simp only: jsMul.simps e) (simp add: mult.commute)
  have nz: "(of_nat (Suc j) :: rat) \<noteq> 0" by simp
  have q: "(of_nat ((n choose Suc j) * Suc j) :: rat) / of_int (int (Suc j)) = of_nat (n choose Suc j)"
    unfolding of_int_of_nat_eq of_nat_mult by (rule nonzero_mult_div_cancel_right [OF nz])
  have "n choose Suc j \<le> Suc j * (n choose Suc j)" by simp
  then have "n choose Suc j < 2 ^ 53" using assms(3) by linarith
  then have d: "jsDiv (Num (of_nat ((n choose Suc j) * Suc j))) (int (Suc j))
                  = Num (of_nat (n choose Suc j))"
    by (simp only: jsDiv.simps q toNumber_of_nat)
  have "int (Suc j) \<le> int r" using assms(1) by simp
  then show ?thesis
    by (subst combLoop.simps) (simp only: if_True m d, simp add: add.commute)
qed

lemma combLoop_exact_prefix:
  assumes "j \<le> j'" and "j' \<le> r" and "2 * r \<le> n" and "j' * (n choose j') < 2 ^ 53"
  shows "combLoop (int n) (int r) (int (Suc j)) (Num (of_nat (n choose j)))
       = combLoop (int n) (int r) (int (Suc j')) (Num (of_nat (n choose j')))"
  using assms
proof (induction "j' - j" arbitrary: j)
  case 0
  then show ?case by simp
next
  case (Suc d)
  then have jj: "Suc j \<le> j'" by simp
  have "Suc j * (n choose Suc j) \<le> j' * (n choose j')"
    using jj Suc.prems(2,3) by (intro choose_prod_mono) simp_all
  then have b: "Suc j * (n choose Suc j) < 2 ^ 53"
    using Suc.prems(4) by linarith
  have "j < r" using jj Suc.prems(2) by simp
  then have "combLoop (int n) (int r) (int (Suc j)) (Num (of_nat (n choose j)))
       = combLoop (int n) (int r) (int (Suc (Suc j))) (Num (of_nat (n choose Suc j)))"
    using Suc.prems(3) b by (rule combLoop_exact_step)
  also have "\<dots> = combLoop (int n) (int r) (int (Suc j')) (Num (of_nat (n choose j')))"
    using Suc.hyps(1) [of "Suc j"] Suc.hyps(2) jj Suc.prems(2,3,4) by simp
  finally show ?case .
qed

lemma getCombinations_exact:
  assumes "min r (n - r) * (n choose r) < 2 ^ 53"
  shows "getCombinations (int n) (int r) = Num (of_nat (n choose r))"
proof -
  consider "r > n" | "r = 0 \<or> r = n" | "0 < r" "r < n" by linarith
  then show ?thesis
  proof cases
    case 1
    then show ?thesis by (simp add: getCombinations_def binomial_eq_0)
  next
    case 2
    then show ?thesis by (auto simp: getCombinations_def)
  next
    case 3
    define r' where "r' = (if (of_nat r :: rat) > of_nat n / 2 then n - r else r)"
    have "(of_nat n :: rat) < of_nat (2 * r) \<longleftrightarrow> n < 2 * r"
      by (rule of_nat_less_iff)
    then have half: "(of_nat n :: rat) < of_nat r * 2 \<longleftrightarrow> n < 2 * r"
      by (simp add: mult.commute)
    have r'n: "2 * r' \<le> n" using 3 by (simp add: r'_def half) linarith
    have r'm: "r' = min r (n - r)" using 3 by (simp add: r'_def half)
    have sym: "n choose r' = n choose r"
      using 3 by (simp add: r'_def binomial_symmetric [symmetric])
    have "r' * (n choose r') = min r (n - r) * (n choose r)"
      using sym r'm by metis
    then have b: "r' * (n choose r') < 2 ^ 53"
      using assms by (simp only:)
    have "int r' = (if (of_int (int r) :: rat) > of_int (int n) / 2 then int n - int r else int r)"
      using 3 by (simp add: r'_def)
    then have "getCombinations (int n) (int r) = mathRound (combLoop (int n) (int r') 1 (Num 1))"
      using 3 by (simp add: getCombinations_def Let_def)
    also have "combLoop (int n) (int r') 1 (Num 1)
                 = combLoop (int n) (int r') (int (Suc r')) (Num (of_nat (n choose r')))"
      using combLoop_exact_prefix [of 0 r' r' n] r'n b by simp
    also have "\<dots> = Num (of_nat (n choose r'))"
      by (rule combLoop_done) simp
    finally show ?thesis by (simp add: sym)
  qed
qed

lemma choose_mono_upper: "n \<le> N \<Longrightarrow> n choose k \<le> N choose k"
proof (induction N)
  case 0
  then show ?case by simp
next
  case (Suc N)
  show ?case
  proof (cases "n = Suc N")
    case True
    then show ?thesis by simp
  next
    case False
    then have "n choose k \<le> N choose k" using Suc by simp
    also have "\<dots> \<le> Suc N choose k" by (cases k) simp_all
    finally show ?thesis .
  qed
qed

lemma choose_succ_bound:
  assumes "k < m"
  shows "m choose k \<le> Suc k * ((m - 1) choose k)"
proof -
  have mk: "m \<le> Suc k * (m - k)"
  proof -
    obtain d where "m = Suc (k + d)" using assms less_iff_Suc_add by auto
    then show ?thesis by simp
  qed
  have "(m - k) * (m choose k) = m * ((m - 1) choose k)"
    by (rule binomial_absorb_comp)
  also have "\<dots> \<le> (Suc k * (m - k)) * ((m - 1) choose k)"
    using mk by (rule mult_le_mono1)
  also have "\<dots> = (m - k) * (Suc k * ((m - 1) choose k))"
    by (simp only: ac_simps)
  finally show ?thesis
    using assms mult_le_cancel1 [of "m - k" "m choose k" "Suc k * ((m - 1) choose k)"] by simp
qed

lemma getCombinations_below:
  assumes "k * (N choose k) < 2 ^ 53" and "int (N choose k) < c" and "j \<le> N"
  shows "\<not> jsGe (getCombinations (int j) (int k)) c"
proof -
  have le: "j choose k \<le> N choose k" using assms(3) by (rule choose_mono_upper)
  have "min k (j - k) * (j choose k) \<le> k * (N choose k)"
    using le by (intro mult_le_mono) simp_all
  then have "min k (j - k) * (j choose k) < 2 ^ 53" using assms(1) by linarith
  then have "getCombinations (int j) (int k) = Num (of_nat (j choose k))"
    by (rule getCombinations_exact)
  moreover have "int (j choose k) < c" using le assms(2) by linarith
  ultimately show ?thesis by simp
qed

section \<open>The pool-size search\<close>

lemma minPoolLoop_ge: "m \<le> fst (minPoolLoop c k m t)"
proof (induction c k m t rule: minPoolLoop.induct)
  case (1 c k m t)
  show ?case
  proof (cases "jsGe (getCombinations m k) c \<or> 100 < m + 1")
    case True
    then show ?thesis by (subst minPoolLoop.simps) auto
  next
    case False
    then have "m + 1 \<le> fst (minPoolLoop c k (m + 1) (t @ [m]))"
      using "1.IH" by simp
    then show ?thesis using False by (subst minPoolLoop.simps) simp
  qed
qed

lemma minPoolLoop_uncapped:
  "\<not> fst (snd (minPoolLoop c k m t))
     \<Longrightarrow> jsGe (getCombinations (fst (minPoolLoop c k m t)) k) c"
proof (induction c k m t rule: minPoolLoop.induct)
  case (1 c k m t)
  show ?case
  proof (cases "jsGe (getCombinations m k) c")
    case True
    then show ?thesis by (subst minPoolLoop.simps) simp
  next
    case nc: False
    show ?thesis
    proof (cases "100 < m + 1")
      case True
      then have "fst (snd (minPoolLoop c k m t))"
        using nc by (subst minPoolLoop.simps) simp
      then show ?thesis using "1.prems" by simp
    next
      case False
      have eq: "minPoolLoop c k m t = minPoolLoop c k (m + 1) (t @ [m])"
        using nc False by (subst minPoolLoop.simps) simp
      show ?thesis
        using "1.IH" [OF nc False] "1.prems" unfolding eq by simp
    qed
  qed
qed

lemma minPoolLoop_bounds:
  assumes "m \<le> 100" and "\<forall>x \<in> set t. x \<le> 100"
  shows "fst (minPoolLoop c k m t) \<le> 101
       \<and> (fst (snd (minPoolLoop c k m t)) \<longrightarrow> fst (minPoolLoop c k m t) = 101)
       \<and> (\<not> fst (snd (minPoolLoop c k m t)) \<longrightarrow> fst (minPoolLoop c k m t) \<le> 100)
       \<and> (\<forall>x \<in> set (snd (snd (minPoolLoop c k m t))). x \<le> 100)"
  using assms
proof (induction c k m t rule: minPoolLoop.induct)
  case (1 c k m t)
  show ?case
  proof (cases "jsGe (getCombinations m k) c")
    case True
    then show ?thesis using "1.prems" by (subst (1 2 3 4 5 6) minPoolLoop.simps) simp
  next
    case nc: False
    show ?thesis
    proof (cases "100 < m + 1")
      case True
      then have "m = 100" using "1.prems" by simp
      then show ?thesis using nc "1.prems" by (subst (1 2 3 4 5 6) minPoolLoop.simps) simp
    next
      case False
      have eq: "minPoolLoop c k m t = minPoolLoop c k (m + 1) (t @ [m])"
        using nc False by (subst minPoolLoop.simps) simp
      have "m + 1 \<le> 100" using False by simp
      moreover have "\<forall>x \<in> set (t @ [m]). x \<le> 100" using "1.prems" by simp
      ultimately show ?thesis
        using "1.IH" [OF nc False] unfolding eq by blast
    qed
  qed
qed

lemma minPoolLoop_first_hit:
  assumes "m \<le> h" and "h \<le> 100"
    and "\<forall>j. m \<le> j \<and> j < h \<longrightarrow> \<not> jsGe (getCombinations j k) c"
    and "jsGe (getCombinations h k) c"
  shows "fst (minPoolLoop c k m t) = h \<and> \<not> fst (snd (minPoolLoop c k m t))"
  using assms
proof (induction c k m t rule: minPoolLoop.induct)
  case (1 c k m t)
  show ?case
  proof (cases "m = h")
    case True
    then show ?thesis using "1.prems"(4) by (subst (1 2) minPoolLoop.simps) simp
  next
    case False
    then have lt: "m < h" using "1.prems"(1) by simp
    then have nc: "\<not> jsGe (getCombinations m k) c" using "1.prems"(3) by simp
    have nf: "\<not> 100 < m + 1" using lt "1.prems"(2) by simp
    have eq: "minPoolLoop c k m t = minPoolLoop c k (m + 1) (t @ [m])"
      using nc nf by (subst minPoolLoop.simps) simp
    have "m + 1 \<le> h" using lt by simp
    moreover have "\<forall>j. m + 1 \<le> j \<and> j < h \<longrightarrow> \<not> jsGe (getCombinations j k) c"
      using "1.prems"(3) by simp
    ultimately show ?thesis
      using "1.IH" [OF nc nf] "1.prems"(2,4) unfolding eq by blast
  qed
qed

lemma minPoolLoop_all_fail:
  assumes "m \<le> 100"
    and "\<forall>j. m \<le> j \<and> j \<le> 100 \<longrightarrow> \<not> jsGe (getCombinations j k) c"
  shows "fst (minPoolLoop c k m t) = 101 \<and> fst (snd (minPoolLoop c k m t))"
  using assms
proof (induction c k m t rule: minPoolLoop.induct)
  case (1 c k m t)
  have nc: "\<not> jsGe (getCombinations m k) c" using "1.prems" by simp
  show ?case
  proof (cases "100 < m + 1")
    case True
    then have "m = 100" using "1.prems"(1) by simp
    then show ?thesis using nc by (subst (1 2) minPoolLoop.simps) simp
  next
    case False
    have eq: "minPoolLoop c k m t = minPoolLoop c k (m + 1) (t @ [m])"
      using nc False by (subst minPoolLoop.simps) simp
    have "m + 1 \<le> 100" using False by simp
    moreover have "\<forall>j. m + 1 \<le> j \<and> j \<le> 100 \<longrightarrow> \<not> jsGe (getCombinations j k) c"
      using "1.prems"(2) by simp
    ultimately show ?thesis
      using "1.IH" [OF nc False] unfolding eq by blast
  qed
qed

lemma getCombinations_13_9: "getCombinations 13 9 = Num 715"
  using getCombinations_exact [of 9 13] by (simp add: binomial_fact' fact_numeral)

lemma initial_search: "minPoolLoop 30 9 9 [] = (11, False, [9, 10, 11])"
proof -
  have "getCombinations 9 9 = Num 1" by (simp add: getCombinations_def)
  moreover have "getCombinations 10 9 = Num 10"
    using getCombinations_exact [of 9 10] by (simp add: binomial_fact' fact_numeral)
  moreover have "getCombinations 11 9 = Num 55"
    using getCombinations_exact [of 9 11] by (simp add: binomial_fact' fact_numeral)
  ultimately show ?thesis
    by (simp add: minPoolLoop.simps)
qed

lemma capped_search:
  "fst (minPoolLoop 2000000000000 9 9 []) = 101 \<and> fst (snd (minPoolLoop 2000000000000 9 9 []))"
proof -
  have c: "(100::nat) choose 9 = 1902231808400"
    by (simp add: binomial_fact' fact_numeral)
  have "\<not> jsGe (getCombinations j 9) 2000000000000" if "9 \<le> j" "j \<le> 100" for j :: int
  proof -
    have "nat j \<le> 100" using that by simp
    then have "\<not> jsGe (getCombinations (int (nat j)) (int 9)) 2000000000000"
      by (intro getCombinations_below [of 9 100]) (simp_all add: c)
    then show ?thesis using that by simp
  qed
  then show ?thesis
    by (intro minPoolLoop_all_fail) simp_all
qed

section \<open>The double computation of some binomial coefficients\<close>

lemma floor_rat_numeral: "\<lfloor>(numeral a :: rat) / numeral b\<rfloor> = numeral a div numeral b"
  using floor_divide_of_int_eq [of "numeral a" "numeral b", where ?'a = rat] by simp

lemma combLoop_52: "combLoop 52 25 1 (Num 1) = Num 477551179875952"
proof -
  have c0: "(52::nat) choose 23 = 352870329957600"
    by (simp add: binomial_fact' fact_numeral)
  have s0: "combLoop 52 25 1 (Num 1) = combLoop 52 25 24 (Num 352870329957600)"
    using combLoop_exact_prefix [of 0 23 25 52] by (simp add: c0)
  have m24: "toNumber (352870329957600 * of_int 29) = Num 10233239568770400"
    using toNumber_binade [of "1" "352870329957600 * of_int 29"]
    by (simp add: pow2_def roundTiesToEven_def Let_def floor_rat_numeral)
  have q24: "toNumber (10233239568770400 / of_int 24) = Num 426384982032100"
    using toNumber_binade [of "-4" "10233239568770400 / of_int 24"]
    by (simp add: pow2_def roundTiesToEven_def Let_def floor_rat_numeral)
  have s24: "combLoop 52 25 24 (Num 352870329957600) = combLoop 52 25 25 (Num 426384982032100)"
  proof -
    have a: "(24::int) \<le> 25" "(52::int) - 24 + 1 = 29" "(24::int) + 1 = 25"
      by simp_all
    show ?thesis
      by (subst combLoop.simps) (simp only: a if_True jsMul.simps jsDiv.simps m24 q24)
  qed
  have m25: "toNumber (426384982032100 * of_int 28) = Num 11938779496898800"
    using toNumber_binade [of "1" "426384982032100 * of_int 28"]
    by (simp add: pow2_def roundTiesToEven_def Let_def floor_rat_numeral)
  have q25: "toNumber (11938779496898800 / of_int 25) = Num 477551179875952"
    using toNumber_binade [of "-4" "11938779496898800 / of_int 25"]
    by (simp add: pow2_def roundTiesToEven_def Let_def floor_rat_numeral)
  have s25: "combLoop 52 25 25 (Num 426384982032100) = combLoop 52 25 26 (Num 477551179875952)"
  proof -
    have a: "(25::int) \<le> 25" "(52::int) - 25 + 1 = 28" "(25::int) + 1 = 26"
      by simp_all
    show ?thesis
      by (subst combLoop.simps) (simp only: a if_True jsMul.simps jsDiv.simps m25 q25)
  qed
  have d: "combLoop 52 25 26 (Num 477551179875952) = Num 477551179875952"
    by (rule combLoop_done) simp
  show ?thesis
    by (simp only: s0 s24 s25 d)
qed

lemma getCombinations_52_25: "getCombinations 52 25 = Num 477551179875952"
  by (simp add: getCombinations_def combLoop_52)

lemma combLoop_53: "combLoop 53 25 1 (Num 1) = Num 903936161908052"
proof -
  have c0: "(53::nat) choose 21 = 317986441828055"
    by (simp add: binomial_fact' fact_numeral)
  have s0: "combLoop 53 25 1 (Num 1) = combLoop 53 25 22 (Num 317986441828055)"
    using combLoop_exact_prefix [of 0 21 25 53] by (simp add: c0)
  have m22: "toNumber (317986441828055 * of_int 32) = Num 10175566138497760"
    using toNumber_binade [of "1" "317986441828055 * of_int 32"]
    by (simp add: pow2_def roundTiesToEven_def Let_def floor_rat_numeral)
  have q22: "toNumber (10175566138497760 / of_int 22) = Num 462525733568080"
    using toNumber_binade [of "-4" "10175566138497760 / of_int 22"]
    by (simp add: pow2_def roundTiesToEven_def Let_def floor_rat_numeral)
  have s22: "combLoop 53 25 22 (Num 317986441828055) = combLoop 53 25 23 (Num 462525733568080)"
  proof -
    have a: "(22::int) \<le> 25" "(53::int) - 22 + 1 = 32" "(22::int) + 1 = 23"
      by simp_all
    show ?thesis
      by (subst combLoop.simps) (simp only: a if_True jsMul.simps jsDiv.simps m22 q22)
  qed
  have m23: "toNumber (462525733568080 * of_int 31) = Num 14338297740610480"
    using toNumber_binade [of "1" "462525733568080 * of_int 31"]
    by (simp add: pow2_def roundTiesToEven_def Let_def floor_rat_numeral)
  have q23: "toNumber (14338297740610480 / of_int 23) = Num 623404249591760"
    using toNumber_binade [of "-3" "14338297740610480 / of_int 23"]
    by (simp add: pow2_def roundTiesToEven_def Let_def floor_rat_numeral)
  have s23: "combLoop 53 25 23 (Num 462525733568080) = combLoop 53 25 24 (Num 623404249591760)"
  proof -
    have a: "(23::int) \<le> 25" "(53::int) - 23 + 1 = 31" "(23::int) + 1 = 24"
      by simp_all
    show ?thesis
      by (subst combLoop.simps) (simp only: a if_True jsMul.simps jsDiv.simps m23 q23)
  qed
  have m24: "toNumber (623404249591760 * of_int 30) = Num 18702127487752800"
    using toNumber_binade [of "2" "623404249591760 * of_int 30"]
    by (simp add: pow2_def roundTiesToEven_def Let_def floor_rat_numeral)
  have q24: "toNumber (18702127487752800 / of_int 24) = Num 779255311989700"
    using toNumber_binade [of "-3" "18702127487752800 / of_int 24"]
    by (simp add: pow2_def roundTiesToEven_def Let_def floor_rat_numeral)
  have s24: "combLoop 53 25 24 (Num 623404249591760) = combLoop 53 25 25 (Num 779255311989700)"
  proof -
    have a: "(24::int) \<le> 25" "(53::int) - 24 + 1 = 30" "(24::int) + 1 = 25"
      by simp_all
    show ?thesis
      by (subst combLoop.simps) (simp only: a if_True jsMul.simps jsDiv.simps m24 q24)
  qed
  have m25: "toNumber (779255311989700 * of_int 29) = Num 22598404047701300"
    using toNumber_binade [of "2" "779255311989700 * of_int 29"]
    by (simp add: pow2_def roundTiesToEven_def Let_def floor_rat_numeral)
  have q25: "toNumber (22598404047701300 / of_int 25) = Num 903936161908052"
    using toNumber_binade [of "-3" "22598404047701300 / of_int 25"]
    by (simp add: pow2_def roundTiesToEven_def Let_def floor_rat_numeral)
  have s25: "combLoop 53 25 25 (Num 779255311989700) = combLoop 53 25 26 (Num 903936161908052)"
  proof -
    have a: "(25::int) \<le> 25" "(53::int) - 25 + 1 = 29" "(25::int) + 1 = 26"
      by simp_all
    show ?thesis
      by (subst combLoop.simps) (simp only: a if_True jsMul.simps jsDiv.simps m25 q25)
  qed
  have d: "combLoop 53 25 26 (Num 903936161908052) = Num 903936161908052"
    by (rule combLoop_done) simp
  show ?thesis
    by (simp only: s0 s22 s23 s24 s25 d)
qed

lemma getCombinations_53_25: "getCombinations 53 25 = Num 903936161908052"
  by (simp add: getCombinations_def combLoop_53)

lemma combLoop_54: "combLoop 54 25 1 (Num 1) = Num 1683191473897752"
proof -
  have c0: "(54::nat) choose 20 = 321387366339585"
    by (simp add: binomial_fact' fact_numeral)
  have s0: "combLoop 54 25 1 (Num 1) = combLoop 54 25 21 (Num 321387366339585)"
    using combLoop_exact_prefix [of 0 20 25 54] by (simp add: c0)
  have m21: "toNumber (321387366339585 * of_int 34) = Num 10927170455545890"
    using toNumber_binade [of "1" "321387366339585 * of_int 34"]
    by (simp add: pow2_def roundTiesToEven_def Let_def floor_rat_numeral)
  have q21: "toNumber (10927170455545890 / of_int 21) = Num 520341450264090"
    using toNumber_binade [of "-4" "10927170455545890 / of_int 21"]
    by (simp add: pow2_def roundTiesToEven_def Let_def floor_rat_numeral)
  have s21: "combLoop 54 25 21 (Num 321387366339585) = combLoop 54 25 22 (Num 520341450264090)"
  proof -
    have a: "(21::int) \<le> 25" "(54::int) - 21 + 1 = 34" "(21::int) + 1 = 22"
      by simp_all
    show ?thesis
      by (subst combLoop.simps) (simp only: a if_True jsMul.simps jsDiv.simps m21 q21)
  qed
  have m22: "toNumber (520341450264090 * of_int 33) = Num 17171267858714970"
    using toNumber_binade [of "1" "520341450264090 * of_int 33"]
    by (simp add: pow2_def roundTiesToEven_def Let_def floor_rat_numeral)
  have q22: "toNumber (17171267858714970 / of_int 22) = Num 780512175396135"
    using toNumber_binade [of "-3" "17171267858714970 / of_int 22"]
    by (simp add: pow2_def roundTiesToEven_def Let_def floor_rat_numeral)
  have s22: "combLoop 54 25 22 (Num 520341450264090) = combLoop 54 25 23 (Num 780512175396135)"
  proof -
    have a: "(22::int) \<le> 25" "(54::int) - 22 + 1 = 33" "(22::int) + 1 = 23"
      by simp_all
    show ?thesis
      by (subst combLoop.simps) (simp only: a if_True jsMul.simps jsDiv.simps m22 q22)
  qed
  have m23: "toNumber (780512175396135 * of_int 32) = Num 24976389612676320"
    using toNumber_binade [of "2" "780512175396135 * of_int 32"]
    by (simp add: pow2_def roundTiesToEven_def Let_def floor_rat_numeral)
  have q23: "toNumber (24976389612676320 / of_int 23) = Num 1085929983159840"
    using toNumber_binade [of "-3" "24976389612676320 / of_int 23"]
    by (simp add: pow2_def roundTiesToEven_def Let_def floor_rat_numeral)
  have s23: "combLoop 54 25 23 (Num 780512175396135) = combLoop 54 25 24 (Num 1085929983159840)"
  proof -
    have a: "(23::int) \<le> 25" "(54::int) - 23 + 1 = 32" "(23::int) + 1 = 24"
      by simp_all
    show ?thesis
      by (subst combLoop.simps) (simp only: a if_True jsMul.simps jsDiv.simps m23 q23)
  qed
  have m24: "toNumber (1085929983159840 * of_int 31) = Num 33663829477955040"
    using toNumber_binade [of "2" "1085929983159840 * of_int 31"]
    by (simp add: pow2_def roundTiesToEven_def Let_def floor_rat_numeral)
  have q24: "toNumber (33663829477955040 / of_int 24) = Num 1402659561581460"
    using toNumber_binade [of "-2" "33663829477955040 / of_int 24"]
    by (simp add: pow2_def roundTiesToEven_def Let_def floor_rat_numeral)
  have s24: "combLoop 54 25 24 (Num 1085929983159840) = combLoop 54 25 25 (Num 1402659561581460)"
  proof -
    have a: "(24::int) \<le> 25" "(54::int) - 24 + 1 = 31" "(24::int) + 1 = 25"
      by simp_all
    show ?thesis
      by (subst combLoop.simps) (simp only: a if_True jsMul.simps jsDiv.simps m24 q24)
  qed
  have m25: "toNumber (1402659561581460 * of_int 30) = Num 42079786847443800"
    using toNumber_binade [of "3" "1402659561581460 * of_int 30"]
    by (simp add: pow2_def roundTiesToEven_def Let_def floor_rat_numeral)
  have q25: "toNumber (42079786847443800 / of_int 25) = Num 1683191473897752"
    using toNumber_binade [of "-2" "42079786847443800 / of_int 25"]
    by (simp add: pow2_def roundTiesToEven_def Let_def floor_rat_numeral)
  have s25: "combLoop 54 25 25 (Num 1402659561581460) = combLoop 54 25 26 (Num 1683191473897752)"
  proof -
    have a: "(25::int) \<le> 25" "(54::int) - 25 + 1 = 30" "(25::int) + 1 = 26"
      by simp_all
    show ?thesis
      by (subst combLoop.simps) (simp only: a if_True jsMul.simps jsDiv.simps m25 q25)
  qed
  have d: "combLoop 54 25 26 (Num 1683191473897752) = Num 1683191473897752"
    by (rule combLoop_done) simp
  show ?thesis
    by (simp only: s0 s21 s22 s23 s24 s25 d)
qed

lemma getCombinations_54_25: "getCombinations 54 25 = Num 1683191473897752"
  by (simp add: getCombinations_def combLoop_54)

lemma combLoop_55: "combLoop 55 25 1 (Num 1) = Num 3085851035479212"
proof -
  have c0: "(55::nat) choose 19 = 280576272201225"
    by (simp add: binomial_fact' fact_numeral)
  have s0: "combLoop 55 25 1 (Num 1) = combLoop 55 25 20 (Num 280576272201225)"
    using combLoop_exact_prefix [of 0 19 25 55] by (simp add: c0)
  have m20: "toNumber (280576272201225 * of_int 36) = Num 10100745799244100"
    using toNumber_binade [of "1" "280576272201225 * of_int 36"]
    by (simp add: pow2_def roundTiesToEven_def Let_def floor_rat_numeral)
  have q20: "toNumber (10100745799244100 / of_int 20) = Num 505037289962205"
    using toNumber_binade [of "-4" "10100745799244100 / of_int 20"]
    by (simp add: pow2_def roundTiesToEven_def Let_def floor_rat_numeral)
  have s20: "combLoop 55 25 20 (Num 280576272201225) = combLoop 55 25 21 (Num 505037289962205)"
  proof -
    have a: "(20::int) \<le> 25" "(55::int) - 20 + 1 = 36" "(20::int) + 1 = 21"
      by simp_all
    show ?thesis
      by (subst combLoop.simps) (simp only: a if_True jsMul.simps jsDiv.simps m20 q20)
  qed
  have m21: "toNumber (505037289962205 * of_int 35) = Num 17676305148677176"
    using toNumber_binade [of "1" "505037289962205 * of_int 35"]
    by (simp add: pow2_def roundTiesToEven_def Let_def floor_rat_numeral)
  have q21: "toNumber (17676305148677176 / of_int 21) = Num 841728816603675"
    using toNumber_binade [of "-3" "17676305148677176 / of_int 21"]
    by (simp add: pow2_def roundTiesToEven_def Let_def floor_rat_numeral)
  have s21: "combLoop 55 25 21 (Num 505037289962205) = combLoop 55 25 22 (Num 841728816603675)"
  proof -
    have a: "(21::int) \<le> 25" "(55::int) - 21 + 1 = 35" "(21::int) + 1 = 22"
      by simp_all
    show ?thesis
      by (subst combLoop.simps) (simp only: a if_True jsMul.simps jsDiv.simps m21 q21)
  qed
  have m22: "toNumber (841728816603675 * of_int 34) = Num 28618779764524952"
    using toNumber_binade [of "2" "841728816603675 * of_int 34"]
    by (simp add: pow2_def roundTiesToEven_def Let_def floor_rat_numeral)
  have q22: "toNumber (28618779764524952 / of_int 22) = Num 1300853625660225"
    using toNumber_binade [of "-2" "28618779764524952 / of_int 22"]
    by (simp add: pow2_def roundTiesToEven_def Let_def floor_rat_numeral)
  have s22: "combLoop 55 25 22 (Num 841728816603675) = combLoop 55 25 23 (Num 1300853625660225)"
  proof -
    have a: "(22::int) \<le> 25" "(55::int) - 22 + 1 = 34" "(22::int) + 1 = 23"
      by simp_all
    show ?thesis
      by (subst combLoop.simps) (simp only: a if_True jsMul.simps jsDiv.simps m22 q22)
  qed
  have m23: "toNumber (1300853625660225 * of_int 33) = Num 42928169646787424"
    using toNumber_binade [of "3" "1300853625660225 * of_int 33"]
    by (simp add: pow2_def roundTiesToEven_def Let_def floor_rat_numeral)
  have q23: "toNumber (42928169646787424 / of_int 23) = Num 1866442158555975"
    using toNumber_binade [of "-2" "42928169646787424 / of_int 23"]
    by (simp add: pow2_def roundTiesToEven_def Let_def floor_rat_numeral)
  have s23: "combLoop 55 25 23 (Num 1300853625660225) = combLoop 55 25 24 (Num 1866442158555975)"
  proof -
    have a: "(23::int) \<le> 25" "(55::int) - 23 + 1 = 33" "(23::int) + 1 = 24"
      by simp_all
    show ?thesis
      by (subst combLoop.simps) (simp only: a if_True jsMul.simps jsDiv.simps m23 q23)
  qed
  have m24: "toNumber (1866442158555975 * of_int 32) = Num 59726149073791200"
    using toNumber_binade [of "3" "1866442158555975 * of_int 32"]
    by (simp add: pow2_def roundTiesToEven_def Let_def floor_rat_numeral)
  have q24: "toNumber (59726149073791200 / of_int 24) = Num 2488589544741300"
    using toNumber_binade [of "-1" "59726149073791200 / of_int 24"]
    by (simp add: pow2_def roundTiesToEven_def Let_def floor_rat_numeral)
  have s24: "combLoop 55 25 24 (Num 1866442158555975) = combLoop 55 25 25 (Num 2488589544741300)"
  proof -
    have a: "(24::int) \<le> 25" "(55::int) - 24 + 1 = 32" "(24::int) + 1 = 25"
      by simp_all
    show ?thesis
      by (subst combLoop.simps) (simp only: a if_True jsMul.simps jsDiv.simps m24 q24)
  qed
  have m25: "toNumber (2488589544741300 * of_int 31) = Num 77146275886980304"
    using toNumber_binade [of "4" "2488589544741300 * of_int 31"]
    by (simp add: pow2_def roundTiesToEven_def Let_def floor_rat_numeral)
  have q25: "toNumber (77146275886980304 / of_int 25) = Num 3085851035479212"
    using toNumber_binade [of "-1" "77146275886980304 / of_int 25"]
    by (simp add: pow2_def roundTiesToEven_def Let_def floor_rat_numeral)
  have s25: "combLoop 55 25 25 (Num 2488589544741300) = combLoop 55 25 26 (Num 3085851035479212)"
  proof -
    have a: "(25::int) \<le> 25" "(55::int) - 25 + 1 = 31" "(25::int) + 1 = 26"
      by simp_all
    show ?thesis
      by (subst combLoop.simps) (simp only: a if_True jsMul.simps jsDiv.simps m25 q25)
  qed
  have d: "combLoop 55 25 26 (Num 3085851035479212) = Num 3085851035479212"
    by (rule combLoop_done) simp
  show ?thesis
    by (simp only: s0 s20 s21 s22 s23 s24 s25 d)
qed

lemma getCombinations_55_25: "getCombinations 55 25 = Num 3085851035479212"
  by (simp add: getCombinations_def combLoop_55)

lemma combLoop_56: "combLoop 56 25 1 (Num 1) = Num 5574440580220513"
proof -
  have c0: "(56::nat) choose 19 = 424655979547800"
    by (simp add: binomial_fact' fact_numeral)
  have s0: "combLoop 56 25 1 (Num 1) = combLoop 56 25 20 (Num 424655979547800)"
    using combLoop_exact_prefix [of 0 19 25 56] by (simp add: c0)
  have m20: "toNumber (424655979547800 * of_int 37) = Num 15712271243268600"
    using toNumber_binade [of "1" "424655979547800 * of_int 37"]
    by (simp add: pow2_def roundTiesToEven_def Let_def floor_rat_numeral)
  have q20: "toNumber (15712271243268600 / of_int 20) = Num 785613562163430"
    using toNumber_binade [of "-3" "15712271243268600 / of_int 20"]
    by (simp add: pow2_def roundTiesToEven_def Let_def floor_rat_numeral)
  have s20: "combLoop 56 25 20 (Num 424655979547800) = combLoop 56 25 21 (Num 785613562163430)"
  proof -
    have a: "(20::int) \<le> 25" "(56::int) - 20 + 1 = 37" "(20::int) + 1 = 21"
      by simp_all
    show ?thesis
      by (subst combLoop.simps) (simp only: a if_True jsMul.simps jsDiv.simps m20 q20)
  qed
  have m21: "toNumber (785613562163430 * of_int 36) = Num 28282088237883480"
    using toNumber_binade [of "2" "785613562163430 * of_int 36"]
    by (simp add: pow2_def roundTiesToEven_def Let_def floor_rat_numeral)
  have q21: "toNumber (28282088237883480 / of_int 21) = Num 1346766106565880"
    using toNumber_binade [of "-2" "28282088237883480 / of_int 21"]
    by (simp add: pow2_def roundTiesToEven_def Let_def floor_rat_numeral)
  have s21: "combLoop 56 25 21 (Num 785613562163430) = combLoop 56 25 22 (Num 1346766106565880)"
  proof -
    have a: "(21::int) \<le> 25" "(56::int) - 21 + 1 = 36" "(21::int) + 1 = 22"
      by simp_all
    show ?thesis
      by (subst combLoop.simps) (simp only: a if_True jsMul.simps jsDiv.simps m21 q21)
  qed
  have m22: "toNumber (1346766106565880 * of_int 35) = Num 47136813729805800"
    using toNumber_binade [of "3" "1346766106565880 * of_int 35"]
    by (simp add: pow2_def roundTiesToEven_def Let_def floor_rat_numeral)
  have q22: "toNumber (47136813729805800 / of_int 22) = Num 2142582442263900"
    using toNumber_binade [of "-2" "47136813729805800 / of_int 22"]
    by (simp add: pow2_def roundTiesToEven_def Let_def floor_rat_numeral)
  have s22: "combLoop 56 25 22 (Num 1346766106565880) = combLoop 56 25 23 (Num 2142582442263900)"
  proof -
    have a: "(22::int) \<le> 25" "(56::int) - 22 + 1 = 35" "(22::int) + 1 = 23"
      by simp_all
    show ?thesis
      by (subst combLoop.simps) (simp only: a if_True jsMul.simps jsDiv.simps m22 q22)
  qed
  have m23: "toNumber (2142582442263900 * of_int 34) = Num 72847803036972608"
    using toNumber_binade [of "4" "2142582442263900 * of_int 34"]
    by (simp add: pow2_def roundTiesToEven_def Let_def floor_rat_numeral)
  have q23: "toNumber (72847803036972608 / of_int 23) = Num (6334591568432401 / 2)"
    using toNumber_binade [of "-1" "72847803036972608 / of_int 23"]
    by (simp add: pow2_def roundTiesToEven_def Let_def floor_rat_numeral)
  have s23: "combLoop 56 25 23 (Num 2142582442263900) = combLoop 56 25 24 (Num (6334591568432401 / 2))"
  proof -
    have a: "(23::int) \<le> 25" "(56::int) - 23 + 1 = 34" "(23::int) + 1 = 24"
      by simp_all
    show ?thesis
      by (subst combLoop.simps) (simp only: a if_True jsMul.simps jsDiv.simps m23 q23)
  qed
  have m24: "toNumber ((6334591568432401 / 2) * of_int 33) = Num 104520760879134624"
    using toNumber_binade [of "4" "(6334591568432401 / 2) * of_int 33"]
    by (simp add: pow2_def roundTiesToEven_def Let_def floor_rat_numeral)
  have q24: "toNumber (104520760879134624 / of_int 24) = Num 4355031703297276"
    using toNumber_binade [of "-1" "104520760879134624 / of_int 24"]
    by (simp add: pow2_def roundTiesToEven_def Let_def floor_rat_numeral)
  have s24: "combLoop 56 25 24 (Num (6334591568432401 / 2)) = combLoop 56 25 25 (Num 4355031703297276)"
  proof -
    have a: "(24::int) \<le> 25" "(56::int) - 24 + 1 = 33" "(24::int) + 1 = 25"
      by simp_all
    show ?thesis
      by (subst combLoop.simps) (simp only: a if_True jsMul.simps jsDiv.simps m24 q24)
  qed
  have m25: "toNumber (4355031703297276 * of_int 32) = Num 139361014505512832"
    using toNumber_binade [of "4" "4355031703297276 * of_int 32"]
    by (simp add: pow2_def roundTiesToEven_def Let_def floor_rat_numeral)
  have q25: "toNumber (139361014505512832 / of_int 25) = Num 5574440580220513"
    using toNumber_binade [of "0" "139361014505512832 / of_int 25"]
    by (simp add: pow2_def roundTiesToEven_def Let_def floor_rat_numeral)
  have s25: "combLoop 56 25 25 (Num 4355031703297276) = combLoop 56 25 26 (Num 5574440580220513)"
  proof -
    have a: "(25::int) \<le> 25" "(56::int) - 25 + 1 = 32" "(25::int) + 1 = 26"
      by simp_all
    show ?thesis
      by (subst combLoop.simps) (simp only: a if_True jsMul.simps jsDiv.simps m25 q25)
  qed
  have d: "combLoop 56 25 26 (Num 5574440580220513) = Num 5574440580220513"
    by (rule combLoop_done) simp
  show ?thesis
    by (simp only: s0 s20 s21 s22 s23 s24 s25 d)
qed

lemma getCombinations_56_25: "getCombinations 56 25 = Num 5574440580220513"
  by (simp add: getCombinations_def combLoop_56)

section \<open>The search under exact arithmetic\<close>

lemma calculatedMinPool_ge: "k \<le> calculatedMinPool c k"
  unfolding calculatedMinPool_def by (rule minPoolLoop_ge)

lemma minPoolLoop_exact:
  assumes "int k * (int k + 1) * c < 2 ^ 53"
    and "\<not> fst (snd (minPoolLoop c k' m t))"
    and "k' = int k"
    and "m = int k \<or> (int k < m \<and> int ((nat m - 1) choose k) < c)"
  shows "c \<le> int (nat (fst (minPoolLoop c k' m t)) choose k)"
  using assms
proof (induction c k' m t rule: minPoolLoop.induct)
  case (1 c k' m t)
  define n where "n = nat m"
  have mn: "m = int n" using "1.prems"(4) by (auto simp: n_def)
  have bound: "min k (n - k) * (n choose k) < 2 ^ 53"
  proof (cases "m = int k")
    case True
    then have "n = k" by (simp add: n_def)
    then show ?thesis by simp
  next
    case False
    then have lt: "k < n" and prev: "int ((n - 1) choose k) < c"
      using "1.prems"(4) by (auto simp: n_def)
    have "n choose k \<le> Suc k * ((n - 1) choose k)"
      using lt by (rule choose_succ_bound)
    then have "min k (n - k) * (n choose k) \<le> k * (Suc k * ((n - 1) choose k))"
      by (intro mult_le_mono) simp_all
    then have "int (min k (n - k) * (n choose k)) \<le> int (k * (Suc k * ((n - 1) choose k)))"
      by (simp only: of_nat_le_iff)
    also have "\<dots> = (int k * (int k + 1)) * int ((n - 1) choose k)"
      by (simp add: algebra_simps)
    also have "\<dots> \<le> (int k * (int k + 1)) * c"
      using prev by (intro mult_left_mono) simp_all
    also have "\<dots> < 2 ^ 53" using "1.prems"(1) by simp
    finally have "int (min k (n - k) * (n choose k)) < int (2 ^ 53)" by simp
    then show ?thesis by (simp only: of_nat_less_iff)
  qed
  have ex: "getCombinations m k' = Num (of_nat (n choose k))"
    using getCombinations_exact [OF bound] by (simp add: mn "1.prems"(3))
  show ?case
  proof (cases "jsGe (getCombinations m k') c")
    case True
    then have "c \<le> int (n choose k)" by (simp add: ex)
    moreover have "fst (minPoolLoop c k' m t) = m"
      using True by (subst minPoolLoop.simps) simp
    ultimately show ?thesis by (simp add: n_def)
  next
    case nc: False
    then have less: "int (n choose k) < c" by (simp add: ex)
    show ?thesis
    proof (cases "100 < m + 1")
      case True
      then have "fst (snd (minPoolLoop c k' m t))"
        using nc by (subst minPoolLoop.simps) simp
      then show ?thesis using "1.prems"(2) by simp
    next
      case False
      have eq: "minPoolLoop c k' m t = minPoolLoop c k' (m + 1) (t @ [m])"
        using nc False by (subst minPoolLoop.simps) simp
      have "nat (m + 1) - 1 = n" using mn by simp
      moreover have "int k < m + 1" using "1.prems"(4) by auto
      ultimately have inv: "m + 1 = int k
          \<or> (int k < m + 1 \<and> int ((nat (m + 1) - 1) choose k) < c)"
        using less by simp
      have "\<not> fst (snd (minPoolLoop c k' (m + 1) (t @ [m])))"
        using "1.prems"(2) unfolding eq .
      then show ?thesis
        using "1.IH" [OF nc False "1.prems"(1) _ "1.prems"(3) inv] unfolding eq by simp
    qed
  qed
qed

lemma suggestedMin_covers:
  assumes "\<not> searchCapped c (int k)" and "int k * (int k + 1) * c < 2 ^ 53"
  shows "c \<le> int (nat (calculatedMinPool c (int k)) choose k)
       \<and> c \<le> int (nat (suggestedMin c (int k)) choose k)"
proof -
  let ?m = "calculatedMinPool c (int k)"
  have ge: "int k \<le> ?m" by (rule calculatedMinPool_ge)
  have cov: "c \<le> int (nat ?m choose k)"
    using assms minPoolLoop_exact [of k c "int k" "int k" "[]"]
    by (simp add: searchCapped_def calculatedMinPool_def)
  have "c \<le> int (nat (suggestedMin c (int k)) choose k)"
  proof (cases "int k + 1 \<le> ?m")
    case True
    then have "suggestedMin c (int k) = ?m" by (simp add: suggestedMin_def)
    then show ?thesis using cov by simp
  next
    case False
    then have m: "?m = int k" using ge by simp
    then have "c \<le> 1" using cov by simp
    moreover have "nat (suggestedMin c (int k)) = Suc k"
      using m by (simp add: suggestedMin_def)
    moreover have "Suc k choose k = Suc k" by (rule binomial_Suc_n)
    ultimately show ?thesis by simp
  qed
  then show ?thesis using cov by blast
qed

lemma huge_search:
  "fst (minPoolLoop 5574440580220513 25 25 []) = 56
   \<and> \<not> fst (snd (minPoolLoop 5574440580220513 25 25 []))"
proof -
  have c: "(51::nat) choose 25 = 247959266474052"
    by (simp add: binomial_fact' fact_numeral)
  have "\<not> jsGe (getCombinations j 25) 5574440580220513"
    if j: "25 \<le> j" "j < 56" for j :: int
  proof (cases "j \<le> 51")
    case True
    then have "nat j \<le> 51" by simp
    then have "\<not> jsGe (getCombinations (int (nat j)) (int 25)) 5574440580220513"
      by (intro getCombinations_below [of 25 51]) (simp_all add: c)
    then show ?thesis using j by simp
  next
    case False
    then consider "j = 52" | "j = 53" | "j = 54" | "j = 55" using j by linarith
    then show ?thesis
      by cases
        (simp_all add: getCombinations_52_25 getCombinations_53_25 getCombinations_54_25
          getCombinations_55_25)
  qed
  moreover have "jsGe (getCombinations 56 25) 5574440580220513"
    by (simp add: getCombinations_56_25)
  ultimately show ?thesis
    by (intro minPoolLoop_first_hit) simp_all
qed

text \<open>
  C1, as stated, fails: with a 5 by 5 grid and 5574440580220513 requested cards (a
  double) the double product \<^verbatim>\<open>getCombinations(56, 25)\<close> is 5574440580220513, one more
  than the binomial coefficient 5574440580220512; the search stops at 56, uncapped, and
  56 items have fewer combinations than cards were requested.
\<close>

theorem C1_counterexample:
  "\<not> searchCapped (cardCount hugeCountState) (getItemsPerCard hugeCountState)
   \<and> calculatedMinPool (cardCount hugeCountState) (getItemsPerCard hugeCountState) = 56
   \<and> minPoolSize (poolSizeEffect hugeCountState) = 56
   \<and> int (56 choose (gridRows hugeCountState * gridCols hugeCountState))
       < cardCount hugeCountState"
proof -
  have s: "cardCount hugeCountState = 5574440580220513" "getItemsPerCard hugeCountState = 25"
      "gridRows hugeCountState * gridCols hugeCountState = 25"
    by (simp_all add: hugeCountState_def initialState_def getItemsPerCard_def)
  have "(56::nat) choose 25 = 5574440580220512"
    by (simp add: binomial_fact' fact_numeral)
  then show ?thesis
    using huge_search
    by (simp add: s searchCapped_def calculatedMinPool_def poolSizeEffect_def suggestedMin_def
        Let_def)
qed

text \<open>
  C1, amended. Whenever the search leaves its loop by the first \<^verbatim>\<open>break\<close> (it was not
  capped), the value that \<^verbatim>\<open>getCombinations\<close> computes in double arithmetic for the
  computed pool size is at least \<open>cardCount\<close>. If moreover
  \<open>k * (k + 1) * cardCount < 2^53\<close> for \<open>k = rows * cols\<close> (every count from 1 to 100
  on every grid, and far beyond), the doubles of the search are exact, and the computed
  pool size and the suggested minimum stored in \<^verbatim>\<open>minPoolSize\<close> both have at least
  \<open>cardCount\<close> combinations of \<open>rows * cols\<close> items.
\<close>

theorem C1_min_pool_reaches_card_count:
  assumes "\<not> searchCapped (cardCount s) (getItemsPerCard s)"
  shows "jsGe (getCombinations (calculatedMinPool (cardCount s) (getItemsPerCard s))
                 (getItemsPerCard s)) (cardCount s)
       \<and> minPoolSize (poolSizeEffect s) = suggestedMin (cardCount s) (getItemsPerCard s)
       \<and> (getItemsPerCard s * (getItemsPerCard s + 1) * cardCount s < 2 ^ 53 \<longrightarrow>
            cardCount s \<le> int (nat (calculatedMinPool (cardCount s) (getItemsPerCard s))
                                  choose (gridRows s * gridCols s))
            \<and> cardCount s \<le> int (nat (minPoolSize (poolSizeEffect s))
                                  choose (gridRows s * gridCols s)))"
proof -
  let ?k = "gridRows s * gridCols s"
  have k: "getItemsPerCard s = int ?k" by (simp only: getItemsPerCard_def)
  have nc: "\<not> searchCapped (cardCount s) (int ?k)"
    using assms unfolding k .
  then have "\<not> fst (snd (minPoolLoop (cardCount s) (int ?k) (int ?k) []))"
    unfolding searchCapped_def .
  then have "jsGe (getCombinations (fst (minPoolLoop (cardCount s) (int ?k) (int ?k) []))
                     (int ?k)) (cardCount s)"
    by (rule minPoolLoop_uncapped)
  then have "jsGe (getCombinations (calculatedMinPool (cardCount s) (int ?k)) (int ?k))
               (cardCount s)"
    by (simp only: calculatedMinPool_def)
  moreover have m: "minPoolSize (poolSizeEffect s) = suggestedMin (cardCount s) (int ?k)"
    by (simp add: poolSizeEffect_def Let_def k)
  moreover have "cardCount s \<le> int (nat (calculatedMinPool (cardCount s) (int ?k)) choose ?k)
       \<and> cardCount s \<le> int (nat (suggestedMin (cardCount s) (int ?k)) choose ?k)"
    if "int ?k * (int ?k + 1) * cardCount s < 2 ^ 53"
    using nc that by (rule suggestedMin_covers)
  ultimately show ?thesis
    by (simp only: k m) blast
qed

text \<open>The initial state: 3 by 3, 30 cards; the search stops at 11 with 55 combinations.\<close>

theorem C1_witness:
  "\<not> searchCapped (cardCount initialState) (getItemsPerCard initialState)
   \<and> getItemsPerCard initialState * (getItemsPerCard initialState + 1) * cardCount initialState
       < 2 ^ 53
   \<and> minPoolSize (poolSizeEffect initialState) = 11
   \<and> cardCount initialState \<le> int (nat (minPoolSize (poolSizeEffect initialState))
                               choose (gridRows initialState * gridCols initialState))"
proof -
  have k: "getItemsPerCard initialState = 9" "cardCount initialState = 30"
    by (simp_all add: getItemsPerCard_def initialState_def)
  have h: "\<not> searchCapped (cardCount initialState) (getItemsPerCard initialState)"
    unfolding k by (simp add: searchCapped_def initial_search)
  have b: "getItemsPerCard initialState * (getItemsPerCard initialState + 1)
             * cardCount initialState < 2 ^ 53"
    unfolding k by simp
  have "suggestedMin 30 9 = 11"
    by (simp add: suggestedMin_def calculatedMinPool_def initial_search)
  then have "minPoolSize (poolSizeEffect initialState) = 11"
    using C1_min_pool_reaches_card_count [OF h] unfolding k by simp
  moreover have "cardCount initialState
      \<le> int (nat (minPoolSize (poolSizeEffect initialState))
               choose (gridRows initialState * gridCols initialState))"
    using C1_min_pool_reaches_card_count [OF h] b by blast
  ultimately show ?thesis
    using h b by blast
qed

text \<open>
  C7, as stated, fails: with a 3 by 3 grid and 2000000000000 requested cards no pool of
  at most 100 items has enough combinations, the loop increments once more before its
  second \<^verbatim>\<open>break\<close>, and the computed pool size is 101.
\<close>

theorem C7_counterexample:
  "\<not> calculatedMinPool 2000000000000 (int (3 * 3)) \<le> 100"
  using capped_search by (simp add: calculatedMinPool_def)

text \<open>
  C7, amended. For a grid of at most 100 cells, no pool size above 100 is handed to
  \<^verbatim>\<open>getCombinations\<close>; the computed pool size and the suggested minimum are at most
  101; the computed pool size is exactly 101 when the cap is hit and at most 100
  otherwise.
\<close>

theorem C7_cap:
  assumes "rows * cols \<le> 100"
  shows "(\<forall>x \<in> set (poolSizesTried c (int (rows * cols))). x \<le> 100)
       \<and> calculatedMinPool c (int (rows * cols)) \<le> 101
       \<and> (searchCapped c (int (rows * cols)) \<longrightarrow> calculatedMinPool c (int (rows * cols)) = 101)
       \<and> (\<not> searchCapped c (int (rows * cols)) \<longrightarrow> calculatedMinPool c (int (rows * cols)) \<le> 100)
       \<and> suggestedMin c (int (rows * cols)) \<le> 101"
proof -
  have "int (rows * cols) \<le> 100" using assms by linarith
  then show ?thesis
    using minPoolLoop_bounds [of "int (rows * cols)" "[]" c "int (rows * cols)"]
    by (simp add: poolSizesTried_def calculatedMinPool_def searchCapped_def suggestedMin_def)
qed

theorem C7_cap_witness:
  "(3::nat) * 3 \<le> 100
   \<and> searchCapped 2000000000000 (int (3 * 3))
   \<and> calculatedMinPool 2000000000000 (int (3 * 3)) = 101
   \<and> list_all (\<lambda>x. x \<le> 100) (poolSizesTried 2000000000000 (int (3 * 3)))"
proof -
  have h: "(3::nat) * 3 \<le> 100" by simp
  have capped: "searchCapped 2000000000000 (int (3 * 3))"
    using capped_search by (simp add: searchCapped_def)
  show ?thesis
    unfolding list_all_iff using h capped C7_cap [OF h, of 2000000000000] by blast
qed

section \<open>Shuffling permutes the array\<close>

lemma draw_in_range:
  assumes "unitInterval rnd"
  shows "nat \<lfloor>rnd p * of_nat (Suc i + 1)\<rfloor> \<le> Suc i"
proof -
  define x where "x = rnd p * of_nat (Suc i + 1)"
  define z where "z = \<lfloor>x\<rfloor>"
  have r: "rnd p < 1"
    using assms by (simp add: unitInterval_def)
  have pos: "(0::rat) < of_nat (Suc i + 1)"
    by simp
  have "rnd p * of_nat (Suc i + 1) < 1 * of_nat (Suc i + 1)"
    using r pos by (rule mult_strict_right_mono)
  then have "x < of_int (int (Suc i + 1))"
    by (simp only: x_def mult_1 of_int_of_nat_eq)
  then have "z < int (Suc i + 1)"
    unfolding z_def by (simp only: floor_less_iff)
  then have "nat z \<le> Suc i" by simp
  then show ?thesis by (simp only: z_def x_def)
qed

lemma shuffleLoop_length: "length (fst (shuffleLoop rnd p i arr)) = length arr"
  by (induction i arbitrary: p arr) (simp_all add: Let_def)

lemma shuffleLoop_mset:
  assumes "unitInterval rnd" and "i \<le> length arr - 1"
  shows "mset (fst (shuffleLoop rnd p i arr)) = mset arr"
  using assms(2)
proof (induction i arbitrary: p arr)
  case 0
  then show ?case by simp
next
  case (Suc i)
  define j where "j = nat \<lfloor>rnd p * of_nat (Suc i + 1)\<rfloor>"
  define arr' where "arr' = arr[Suc i := arr ! j, j := arr ! Suc i]"
  have i: "Suc i < length arr" using Suc.prems by linarith
  have j: "j < length arr" using draw_in_range [OF assms(1), of p i] i by (simp add: j_def)
  have "mset arr' = mset arr"
    unfolding arr'_def using j i by (rule mset_swap)
  moreover have "i \<le> length arr' - 1" using i by (simp add: arr'_def)
  ultimately have "mset (fst (shuffleLoop rnd (Suc p) i arr')) = mset arr"
    using Suc.IH [of arr' "Suc p"] by simp
  then show ?case by (simp add: Let_def j_def arr'_def)
qed

lemma shuffleArray_length: "length (fst (shuffleArray rnd p pool)) = length pool"
  by (simp add: shuffleArray_def shuffleLoop_length)

lemma shuffleArray_mset:
  "unitInterval rnd \<Longrightarrow> mset (fst (shuffleArray rnd p pool)) = mset pool"
  by (simp add: shuffleArray_def shuffleLoop_mset)

lemma new_card_drawn:
  assumes "unitInterval rnd" and "k \<le> length pool"
  shows "cardDrawnFrom pool k
           \<lparr>card_id = i, cells = map Item (take k (fst (shuffleArray rnd p pool)))\<rparr>"
proof -
  let ?sh = "fst (shuffleArray rnd p pool)"
  have "set ?sh = set pool"
    using shuffleArray_mset [OF assms(1), of p pool] by (rule mset_eq_setD)
  then have "set (take k ?sh) \<subseteq> set pool"
    using set_take_subset [of k ?sh] by simp
  then show ?thesis
    using assms(2) by (auto simp: cardDrawnFrom_def list_all_iff shuffleArray_length)
qed

lemma new_card_distinct:
  assumes "unitInterval rnd" and "distinct pool"
  shows "distinct (map Item (take k (fst (shuffleArray rnd p pool))))"
proof -
  have "distinct (fst (shuffleArray rnd p pool))"
    using mset_eq_imp_distinct_iff [OF shuffleArray_mset [OF assms(1), of p pool]] assms(2)
    by blast
  then show ?thesis by (simp add: distinct_map inj_on_def)
qed

lemma generateCardsLoop_short:
  assumes "length pool < k" and "i \<le> cnt"
  shows "generateCardsLoop rnd p k pool cnt i acc = None"
  using assms shuffleArray_length [of rnd p pool]
  by (subst generateCardsLoop.simps) (simp add: case_prod_beta)

lemma generateCardsLoop_done:
  "cnt < i \<Longrightarrow> generateCardsLoop rnd p k pool cnt i acc = Some acc"
  by (subst generateCardsLoop.simps) simp

lemma generateCardsLoop_step:
  assumes "k \<le> length pool" and "i \<le> cnt"
  shows "generateCardsLoop rnd p k pool cnt i acc =
         generateCardsLoop rnd (snd (shuffleArray rnd p pool)) k pool cnt (i + 1)
           (acc @ [\<lparr>card_id = i, cells = map Item (take k (fst (shuffleArray rnd p pool)))\<rparr>])"
  using assms shuffleArray_length [of rnd p pool]
  by (subst generateCardsLoop.simps) (simp add: case_prod_beta)

lemma generateCardsLoop_ids:
  assumes "k \<le> length pool"
  shows "\<exists>cs. generateCardsLoop rnd p k pool cnt i acc = Some cs
            \<and> map card_id cs = map card_id acc @ [i..cnt]"
  using assms
proof (induction rnd p k pool cnt i acc rule: generateCardsLoop.induct)
  case (1 rnd p k pool cnt i acc)
  show ?case
  proof (cases "i \<le> cnt")
    case False
    then show ?thesis by (simp add: generateCardsLoop_done)
  next
    case True
    let ?sh = "shuffleArray rnd p pool"
    let ?card = "\<lparr>card_id = i, cells = map Item (take k (fst ?sh))\<rparr>"
    have "\<not> length (fst ?sh) < k"
      using "1.prems" by (simp add: shuffleArray_length)
    then obtain cs where cs: "generateCardsLoop rnd (snd ?sh) k pool cnt (i + 1) (acc @ [?card]) = Some cs"
        "map card_id cs = map card_id (acc @ [?card]) @ [i + 1..cnt]"
      using "1.IH" [OF True prod.collapse] "1.prems" by blast
    have "[i..cnt] = i # [i + 1..cnt]"
      using True by (rule upto_rec1)
    then have "map card_id cs = map card_id acc @ [i..cnt]"
      using cs(2) by simp
    then show ?thesis
      using cs(1) generateCardsLoop_step [OF "1.prems" True, of rnd p acc] by simp
  qed
qed

lemma generateCardsLoop_drawn:
  assumes "unitInterval rnd" and "k \<le> length pool" and "list_all (cardDrawnFrom pool k) acc"
  shows "\<exists>cs. generateCardsLoop rnd p k pool cnt i acc = Some cs
            \<and> list_all (cardDrawnFrom pool k) cs"
  using assms
proof (induction rnd p k pool cnt i acc rule: generateCardsLoop.induct)
  case (1 rnd p k pool cnt i acc)
  show ?case
  proof (cases "i \<le> cnt")
    case False
    then show ?thesis using "1.prems" by (simp add: generateCardsLoop_done)
  next
    case True
    let ?sh = "shuffleArray rnd p pool"
    let ?card = "\<lparr>card_id = i, cells = map Item (take k (fst ?sh))\<rparr>"
    have len: "\<not> length (fst ?sh) < k"
      using "1.prems" by (simp add: shuffleArray_length)
    have "cardDrawnFrom pool k ?card"
      using "1.prems"(1,2) by (rule new_card_drawn)
    then have "list_all (cardDrawnFrom pool k) (acc @ [?card])"
      using "1.prems"(3) by simp
    then have "\<exists>cs. generateCardsLoop rnd (snd ?sh) k pool cnt (i + 1) (acc @ [?card]) = Some cs
                 \<and> list_all (cardDrawnFrom pool k) cs"
      using "1.IH" [OF True prod.collapse len] "1.prems"(1,2) by blast
    then show ?thesis
      using generateCardsLoop_step [OF "1.prems"(2) True, of rnd p acc] by simp
  qed
qed

lemma generateCardsLoop_distinct:
  assumes "unitInterval rnd" and "distinct pool" and "k \<le> length pool"
    and "list_all (\<lambda>c. distinct (cells c)) acc"
  shows "\<exists>cs. generateCardsLoop rnd p k pool cnt i acc = Some cs
            \<and> list_all (\<lambda>c. distinct (cells c)) cs"
  using assms
proof (induction rnd p k pool cnt i acc rule: generateCardsLoop.induct)
  case (1 rnd p k pool cnt i acc)
  show ?case
  proof (cases "i \<le> cnt")
    case False
    then show ?thesis using "1.prems" by (simp add: generateCardsLoop_done)
  next
    case True
    let ?sh = "shuffleArray rnd p pool"
    let ?card = "\<lparr>card_id = i, cells = map Item (take k (fst ?sh))\<rparr>"
    have len: "\<not> length (fst ?sh) < k"
      using "1.prems" by (simp add: shuffleArray_length)
    have "distinct (cells ?card)"
      using new_card_distinct [OF "1.prems"(1,2), of k p] by simp
    then have "list_all (\<lambda>c. distinct (cells c)) (acc @ [?card])"
      using "1.prems"(4) by simp
    then have "\<exists>cs. generateCardsLoop rnd (snd ?sh) k pool cnt (i + 1) (acc @ [?card]) = Some cs
                 \<and> list_all (\<lambda>c. distinct (cells c)) cs"
      using "1.IH" [OF True prod.collapse len] "1.prems"(1,2,3) by blast
    then show ?thesis
      using generateCardsLoop_step [OF "1.prems"(3) True, of rnd p acc] by simp
  qed
qed

lemma generateCards_filled:
  assumes "unitInterval rnd" and "gridRows s * gridCols s \<le> length pool"
  shows "\<exists>newCards. generateCards rnd pool cnt s = ([], s\<lparr>cards := newCards\<rparr>)
            \<and> map card_id newCards = [1..cnt]
            \<and> (\<forall>c \<in> set newCards.
                  length (cells c) = gridRows s * gridCols s
                  \<and> set (cells c) \<subseteq> Item ` set pool
                  \<and> (distinct pool \<longrightarrow> distinct (cells c)))"
proof -
  let ?k = "gridRows s * gridCols s"
  obtain cs where cs: "generateCardsLoop rnd 0 ?k pool cnt 1 [] = Some cs"
      and ids: "map card_id cs = [1..cnt]"
    using generateCardsLoop_ids [OF assms(2), of rnd 0 cnt 1 "[]"] by auto
  have drawn: "list_all (cardDrawnFrom pool ?k) cs"
    using generateCardsLoop_drawn [OF assms, of "[]" 0 cnt 1] cs by auto
  have dist: "list_all (\<lambda>c. distinct (cells c)) cs" if "distinct pool"
    using generateCardsLoop_distinct [OF assms(1) that assms(2), of "[]" 0 cnt 1] cs by auto
  have "generateCards rnd pool cnt s = ([], s\<lparr>cards := cs\<rparr>)"
    by (simp add: generateCards_def cs)
  moreover have "\<forall>c \<in> set cs. length (cells c) = ?k \<and> set (cells c) \<subseteq> Item ` set pool
                   \<and> (distinct pool \<longrightarrow> distinct (cells c))"
    using drawn dist by (auto simp: list_all_iff cardDrawnFrom_def)
  ultimately show ?thesis
    using ids by blast
qed

lemma generateCards_short:
  assumes "length pool < gridRows s * gridCols s" and "1 \<le> cnt"
  shows "generateCards rnd pool cnt s = ([ConsoleError ''Not enough items to fill a card!''], s)"
  using generateCardsLoop_short [OF assms, of rnd 0 "[]"] by (simp add: generateCards_def)

lemma generateCardsLoop_enough:
  assumes "k \<le> length pool"
  shows "generateCardsLoop rnd p k pool cnt i acc \<noteq> None"
  using generateCardsLoop_ids [OF assms, of rnd p cnt i acc] by auto

section \<open>Facts about the sample data\<close>

lemma rndHalf_unit: "unitInterval rndHalf"
  by (simp add: unitInterval_def rndHalf_def)

lemma samplePool_10: "distinct (samplePool 10)" "length (samplePool 10) = 10"
  by (simp_all add: samplePool_def sampleItem_def upt_rec)

lemma samplePool_13: "distinct (samplePool 13)" "length (samplePool 13) = 13"
  by (simp_all add: samplePool_def sampleItem_def upt_rec)

lemma initial_grid: "gridRows initialState = 3" "gridCols initialState = 3"
  by (simp_all add: initialState_def)

lemma enlarged_short:
  "length (items enlargedState) < gridRows enlargedState * gridCols enlargedState"
  by (simp add: enlargedState_def staleState_def initialState_def poolSizeEffect_def Let_def
      samplePool_13)

lemma stale_facts:
  "items staleState = samplePool 13" "gridRows staleState = 3" "gridCols staleState = 3"
  "cardCount staleState = 1"
  by (simp_all add: staleState_def initialState_def)

lemma samplePool_11: "length (samplePool 11) = 11"
  by (simp add: samplePool_def)

section \<open>Card generation\<close>

text \<open>
  C2. For a pool of pairwise distinct items that is at least \<open>rows * cols\<close> long and
  draws of \<^verbatim>\<open>Math.random\<close> in \<open>[0, 1)\<close>, \<^verbatim>\<open>generateCards\<close> installs cards numbered
  from 1 to the card count, and each card has exactly \<open>rows * cols\<close> cells, every cell
  an item of the pool and none the free-space marker, with no item twice on a card.
\<close>

theorem C2_cards_filled_from_pool:
  assumes "unitInterval rnd" and "distinct pool" and "gridRows s * gridCols s \<le> length pool"
  shows "\<exists>newCards. generateCards rnd pool cnt s = ([], s\<lparr>cards := newCards\<rparr>)
            \<and> map card_id newCards = [1..cnt]
            \<and> (\<forall>c \<in> set newCards.
                  length (cells c) = gridRows s * gridCols s
                  \<and> set (cells c) \<subseteq> Item ` set pool
                  \<and> GRATIS \<notin> set (cells c)
                  \<and> distinct (cells c))"
proof -
  obtain newCards where n: "generateCards rnd pool cnt s = ([], s\<lparr>cards := newCards\<rparr>)"
      "map card_id newCards = [1..cnt]"
      "\<forall>c \<in> set newCards. length (cells c) = gridRows s * gridCols s
          \<and> set (cells c) \<subseteq> Item ` set pool \<and> (distinct pool \<longrightarrow> distinct (cells c))"
    using generateCards_filled [OF assms(1,3), of cnt] by blast
  have "\<forall>c \<in> set newCards. GRATIS \<notin> set (cells c)"
    using n(3) by auto
  then show ?thesis
    using n assms(2) by blast
qed

theorem C2_witness:
  "unitInterval rndHalf \<and> distinct (samplePool 10)
   \<and> gridRows initialState * gridCols initialState \<le> length (samplePool 10)
   \<and> map card_id (cards (snd (generateCards rndHalf (samplePool 10) 2 initialState))) = [1, 2]
   \<and> list_all (\<lambda>c. length (cells c) = 9 \<and> distinct (cells c))
        (cards (snd (generateCards rndHalf (samplePool 10) 2 initialState)))"
proof -
  have h: "gridRows initialState * gridCols initialState \<le> length (samplePool 10)"
    by (simp add: initial_grid samplePool_10)
  obtain newCards where n:
      "generateCards rndHalf (samplePool 10) 2 initialState = ([], initialState\<lparr>cards := newCards\<rparr>)"
      "map card_id newCards = [1..2]"
      "\<forall>c \<in> set newCards. length (cells c) = gridRows initialState * gridCols initialState
          \<and> set (cells c) \<subseteq> Item ` set (samplePool 10) \<and> GRATIS \<notin> set (cells c)
          \<and> distinct (cells c)"
    using C2_cards_filled_from_pool [OF rndHalf_unit samplePool_10(1) h, of 2] by blast
  have "[1..2] = [1, 2::int]" by (simp add: upto_rec1)
  then show ?thesis
    using rndHalf_unit samplePool_10(1) h n by (simp add: list_all_iff initial_grid)
qed

text \<open>
  C5, as stated, fails: with no card requested the loop body, and the length test in
  it, never runs, and the empty card set replaces the cards although the pool (13 items)
  is shorter than the 16 cells of a card.
\<close>

theorem C5_counterexample:
  "length (items enlargedState) < gridRows enlargedState * gridCols enlargedState
   \<and> cards (enlargedState\<lparr>cardCount := 0\<rparr>) = [staleCard]
   \<and> generateCards rndHalf (items enlargedState) 0 (enlargedState\<lparr>cardCount := 0\<rparr>)
       = ([], enlargedState\<lparr>cardCount := 0, cards := []\<rparr>)"
  by (simp add: enlargedState_def staleState_def initialState_def poolSizeEffect_def Let_def
      samplePool_13 generateCards_def generateCardsLoop_done)

text \<open>
  C5, amended. For a pool shorter than \<open>rows * cols\<close> and at least one requested card,
  \<^verbatim>\<open>generateCards\<close> only logs the error and returns: the state, with its cards, is
  unchanged.
\<close>

theorem C5_short_pool_fails:
  assumes "length pool < gridRows s * gridCols s" and "1 \<le> cnt"
  shows "generateCards rnd pool cnt s = ([ConsoleError ''Not enough items to fill a card!''], s)"
  using assms by (rule generateCards_short)

theorem C5_witness:
  "length (items enlargedState) < gridRows enlargedState * gridCols enlargedState
   \<and> (1::int) \<le> 30
   \<and> generateCards rndHalf (items enlargedState) 30 enlargedState
       = ([ConsoleError ''Not enough items to fill a card!''], enlargedState)"
proof -
  have h: "(1::int) \<le> 30" by simp
  show ?thesis
    using enlarged_short h C5_short_pool_fails [OF enlarged_short h, of rndHalf] by blast
qed

text \<open>
  C6, as stated, fails: the pool of 13 items is not empty, the grid now needs 16 cells,
  and the reshuffle logs the error and keeps the old card of 9 cells.
\<close>

theorem C6_counterexample:
  "items enlargedState \<noteq> []
   \<and> handleRegenerateCardsOnly rndHalf enlargedState
       = ([ConsoleError ''Not enough items to fill a card!''], enlargedState)
   \<and> cards enlargedState = [staleCard]
   \<and> length (cells staleCard) \<noteq> gridRows enlargedState * gridCols enlargedState"
proof -
  have "length (items enlargedState) = 13"
    by (simp add: enlargedState_def staleState_def poolSizeEffect_def Let_def samplePool_13)
  then have ne: "items enlargedState \<noteq> []"
    by auto
  have cnt: "1 \<le> cardCount enlargedState"
    by (simp add: enlargedState_def staleState_def poolSizeEffect_def Let_def)
  have "handleRegenerateCardsOnly rndHalf enlargedState
          = ([ConsoleError ''Not enough items to fill a card!''], enlargedState)"
    using ne generateCards_short [OF enlarged_short cnt, of rndHalf]
    by (simp add: handleRegenerateCardsOnly_def)
  moreover have "cards enlargedState = [staleCard]"
    by (simp add: enlargedState_def staleState_def poolSizeEffect_def Let_def)
  moreover have "length (cells staleCard) \<noteq> gridRows enlargedState * gridCols enlargedState"
    by (simp add: staleCard_def samplePool_13 enlargedState_def staleState_def
        poolSizeEffect_def Let_def)
  ultimately show ?thesis using ne by blast
qed

text \<open>
  C6, amended. The reshuffle never changes the item pool and never calls the AI service.
  With an empty pool it changes nothing. With a non-empty pool of at least \<open>rows * cols\<close>
  items (and draws in \<open>[0, 1)\<close>) it replaces the cards by cards numbered from 1 to
  \<open>cardCount\<close>, each of \<open>rows * cols\<close> cells that are items of the pool, without
  repetition on a card when the pool has none. With a non-empty pool shorter than
  \<open>rows * cols\<close> and at least one requested card it only logs the error.
\<close>

theorem C6_reshuffle:
  "items (snd (handleRegenerateCardsOnly rnd s)) = items s
   \<and> list_all (\<lambda>e. \<not> isAICall e) (fst (handleRegenerateCardsOnly rnd s))
   \<and> (items s = [] \<longrightarrow> handleRegenerateCardsOnly rnd s = ([], s))
   \<and> (items s \<noteq> [] \<and> gridRows s * gridCols s \<le> length (items s) \<and> unitInterval rnd \<longrightarrow>
        (\<exists>newCards. handleRegenerateCardsOnly rnd s = ([], s\<lparr>cards := newCards\<rparr>)
            \<and> map card_id newCards = [1..cardCount s]
            \<and> (\<forall>c \<in> set newCards.
                  length (cells c) = gridRows s * gridCols s
                  \<and> set (cells c) \<subseteq> Item ` set (items s)
                  \<and> (distinct (items s) \<longrightarrow> distinct (cells c)))))
   \<and> (items s \<noteq> [] \<and> length (items s) < gridRows s * gridCols s \<and> 1 \<le> cardCount s \<longrightarrow>
        handleRegenerateCardsOnly rnd s
          = ([ConsoleError ''Not enough items to fill a card!''], s))"
proof -
  have frame: "items (snd (handleRegenerateCardsOnly rnd s)) = items s
      \<and> list_all (\<lambda>e. \<not> isAICall e) (fst (handleRegenerateCardsOnly rnd s))"
    by (simp add: handleRegenerateCardsOnly_def generateCards_def isAICall_def
        split: option.splits)
  have empty: "items s = [] \<longrightarrow> handleRegenerateCardsOnly rnd s = ([], s)"
    by (simp add: handleRegenerateCardsOnly_def)
  have filled: "\<exists>newCards. handleRegenerateCardsOnly rnd s = ([], s\<lparr>cards := newCards\<rparr>)
            \<and> map card_id newCards = [1..cardCount s]
            \<and> (\<forall>c \<in> set newCards.
                  length (cells c) = gridRows s * gridCols s
                  \<and> set (cells c) \<subseteq> Item ` set (items s)
                  \<and> (distinct (items s) \<longrightarrow> distinct (cells c)))"
    if "items s \<noteq> []" "gridRows s * gridCols s \<le> length (items s)" "unitInterval rnd"
    using generateCards_filled [OF that(3,2), of "cardCount s"] that(1)
    by (simp add: handleRegenerateCardsOnly_def)
  have short: "handleRegenerateCardsOnly rnd s
          = ([ConsoleError ''Not enough items to fill a card!''], s)"
    if "items s \<noteq> []" "length (items s) < gridRows s * gridCols s" "1 \<le> cardCount s"
    using generateCards_short [OF that(2,3), of rnd] that(1)
    by (simp add: handleRegenerateCardsOnly_def)
  show ?thesis
    using frame empty filled short by blast
qed

theorem C6_witness:
  "items staleState \<noteq> []
   \<and> gridRows staleState * gridCols staleState \<le> length (items staleState)
   \<and> unitInterval rndHalf
   \<and> items (snd (handleRegenerateCardsOnly rndHalf staleState)) = items staleState
   \<and> fst (handleRegenerateCardsOnly rndHalf staleState) = []
   \<and> map card_id (cards (snd (handleRegenerateCardsOnly rndHalf staleState))) = [1]
   \<and> list_all (\<lambda>c. length (cells c) = 9 \<and> distinct (cells c))
        (cards (snd (handleRegenerateCardsOnly rndHalf staleState)))
   \<and> items initialState = []
   \<and> handleRegenerateCardsOnly rndHalf initialState = ([], initialState)"
proof -
  have h1: "items staleState \<noteq> []"
    using samplePool_13(2) by (auto simp: stale_facts)
  have h2: "gridRows staleState * gridCols staleState \<le> length (items staleState)"
    by (simp add: stale_facts samplePool_13)
  have d: "distinct (items staleState)"
    by (simp add: stale_facts samplePool_13)
  obtain newCards where n:
      "handleRegenerateCardsOnly rndHalf staleState = ([], staleState\<lparr>cards := newCards\<rparr>)"
      "map card_id newCards = [1..cardCount staleState]"
      "\<forall>c \<in> set newCards. length (cells c) = gridRows staleState * gridCols staleState
          \<and> set (cells c) \<subseteq> Item ` set (items staleState)
          \<and> (distinct (items staleState) \<longrightarrow> distinct (cells c))"
    using C6_reshuffle [of rndHalf staleState] h1 h2 rndHalf_unit by blast
  have e: "items initialState = []"
    by (simp add: initialState_def)
  then have i: "handleRegenerateCardsOnly rndHalf initialState = ([], initialState)"
    using C6_reshuffle [of rndHalf initialState] by blast
  have "[1..cardCount staleState] = [1]"
    by (simp add: stale_facts upto_rec1)
  then show ?thesis
    using h1 h2 d rndHalf_unit n e i by (simp add: list_all_iff stale_facts)
qed

text \<open>
  C8. In the default configuration (3 by 3 grid, 30 cards) a pool of 13 items meets the
  minimum-pool requirement: \<^verbatim>\<open>getCombinations(13, 9)\<close> is 715, which is at least the 30
  requested cards, and the suggested minimum is not above 13; \<^verbatim>\<open>generateCards\<close> installs
  one card for each number from 1 to the card count, and every card generated from 13
  pairwise distinct items on a 3 by 3 grid has 9 cells, all different items of the pool.
\<close>

theorem C8_default_configuration:
  assumes "unitInterval rnd" and "distinct pool" and "length pool = 13"
    and "gridRows s = 3" and "gridCols s = 3"
  shows "getCombinations 13 (getItemsPerCard s) = Num 715
       \<and> jsGe (getCombinations 13 (getItemsPerCard initialState)) (cardCount initialState)
       \<and> minPoolSize (poolSizeEffect initialState) \<le> 13
       \<and> (\<exists>newCards. generateCards rnd pool cnt s = ([], s\<lparr>cards := newCards\<rparr>)
            \<and> map card_id newCards = [1..cnt]
            \<and> (\<forall>c \<in> set newCards.
                  length (cells c) = 9 \<and> set (cells c) \<subseteq> Item ` set pool
                  \<and> distinct (cells c)))"
proof -
  have c: "getCombinations 13 9 = Num 715"
    by (rule getCombinations_13_9)
  have k: "getItemsPerCard s = 9" "getItemsPerCard initialState = 9"
    using assms(4,5) by (simp_all add: getItemsPerCard_def initial_grid)
  have "suggestedMin 30 9 = 11"
    by (simp add: suggestedMin_def calculatedMinPool_def initial_search)
  then have m: "minPoolSize (poolSizeEffect initialState) \<le> 13"
    by (simp add: poolSizeEffect_def Let_def k) (simp add: initialState_def)
  have "gridRows s * gridCols s \<le> length pool"
    using assms(3,4,5) by simp
  then obtain newCards where n: "generateCards rnd pool cnt s = ([], s\<lparr>cards := newCards\<rparr>)"
      "map card_id newCards = [1..cnt]"
      "\<forall>c \<in> set newCards. length (cells c) = gridRows s * gridCols s
          \<and> set (cells c) \<subseteq> Item ` set pool \<and> (distinct pool \<longrightarrow> distinct (cells c))"
    using generateCards_filled [OF assms(1), of s pool cnt] by blast
  then have "\<forall>c \<in> set newCards. length (cells c) = 9 \<and> set (cells c) \<subseteq> Item ` set pool
                \<and> distinct (cells c)"
    using assms(2,4,5) by simp
  moreover have "getCombinations 13 (getItemsPerCard s) = Num 715"
    by (simp only: k c)
  moreover have "jsGe (getCombinations 13 (getItemsPerCard initialState)) (cardCount initialState)"
    by (simp only: k c) (simp add: initialState_def)
  ultimately show ?thesis
    using m n(1,2) by blast
qed

text \<open>
  Thirty cards from the sample pool of 13 items: the cards are numbered 1 to 30 and each
  has 9 different cells.
\<close>

theorem C8_witness:
  "unitInterval rndHalf \<and> distinct (samplePool 13) \<and> length (samplePool 13) = 13
   \<and> gridRows initialState = 3 \<and> gridCols initialState = 3
   \<and> getCombinations 13 (getItemsPerCard initialState) = Num 715
   \<and> length (cards (snd (generateCards rndHalf (samplePool 13) 30 initialState))) = 30
   \<and> map card_id (cards (snd (generateCards rndHalf (samplePool 13) 30 initialState)))
       = [1..30]
   \<and> list_all (\<lambda>c. length (cells c) = 9 \<and> distinct (cells c))
        (cards (snd (generateCards rndHalf (samplePool 13) 30 initialState)))"
proof -
  obtain newCards where n:
      "generateCards rndHalf (samplePool 13) 30 initialState = ([], initialState\<lparr>cards := newCards\<rparr>)"
      "map card_id newCards = [1..30]"
      "\<forall>c \<in> set newCards. length (cells c) = 9 \<and> set (cells c) \<subseteq> Item ` set (samplePool 13)
          \<and> distinct (cells c)"
    using C8_default_configuration [OF rndHalf_unit samplePool_13 initial_grid, of 30] by blast
  have "length (map card_id newCards) = length [1..(30::int)]"
    by (simp only: n(2))
  then have len: "length newCards = 30" by simp
  have "getCombinations 13 (getItemsPerCard initialState) = Num 715"
    using C8_default_configuration [OF rndHalf_unit samplePool_13 initial_grid, of 30] by blast
  then show ?thesis
    using rndHalf_unit samplePool_13 initial_grid n len by (simp add: list_all_iff)
qed

section \<open>Starting a generation\<close>

text \<open>
  C9. With an empty topic and no image, \<^verbatim>\<open>handleStartGeneration\<close> raises the alert and
  does nothing else: the state is unchanged, \<^verbatim>\<open>setStatus\<close> is never called (no
  transition to DETECTING or ERROR) and subject detection is not invoked.
\<close>

theorem C9_missing_input_blocks:
  assumes "topic s = []" and "selectedImage s = None"
  shows "handleStartGeneration detect s
           = ([Alert ''Voer een onderwerp in of upload een afbeelding.''], s)"
  using assms by (simp add: handleStartGeneration_def falsyImage_def)

theorem C9_witness:
  "topic initialState = [] \<and> selectedImage initialState = None
   \<and> handleStartGeneration (\<lambda>t img. Some \<lparr>subject = t, isMath = False\<rparr>) initialState
       = ([Alert ''Voer een onderwerp in of upload een afbeelding.''], initialState)
   \<and> status (snd (handleStartGeneration (\<lambda>t img. Some \<lparr>subject = t, isMath = False\<rparr>)
         initialState)) = IDLE"
proof -
  have h: "topic initialState = []" "selectedImage initialState = None"
    by (simp_all add: initialState_def)
  have "status initialState = IDLE" by (simp add: initialState_def)
  then show ?thesis
    using h C9_missing_input_blocks [OF h, of "\<lambda>t img. Some \<lparr>subject = t, isMath = False\<rparr>"]
    by simp
qed

section \<open>The suggested minimum and the insufficient-pool branch\<close>

text \<open>
  C10. The suggested minimum that the pool-size effect stores (in \<^verbatim>\<open>minPoolSize\<close> and
  \<^verbatim>\<open>poolSize\<close>) is at least \<open>rows * cols + 1\<close>; a pool of that size is longer than a
  card has cells, so the loop of \<^verbatim>\<open>generateCards\<close> never takes its early return and
  the cards are installed without an error being logged.
\<close>

theorem C10_suggested_min_exceeds_cells:
  assumes "int (length pool) = poolSize (poolSizeEffect s)"
  shows "getItemsPerCard s + 1 \<le> minPoolSize (poolSizeEffect s)
       \<and> poolSize (poolSizeEffect s) = minPoolSize (poolSizeEffect s)
       \<and> gridRows (poolSizeEffect s) * gridCols (poolSizeEffect s) < length pool
       \<and> generateCardsLoop rnd p (gridRows (poolSizeEffect s) * gridCols (poolSizeEffect s))
           pool cnt i acc \<noteq> None
       \<and> (\<exists>newCards. generateCards rnd pool cnt (poolSizeEffect s)
                        = ([], (poolSizeEffect s)\<lparr>cards := newCards\<rparr>))"
proof -
  let ?s = "poolSizeEffect s"
  have grid: "gridRows ?s = gridRows s" "gridCols ?s = gridCols s"
    by (simp_all add: poolSizeEffect_def Let_def)
  have sz: "poolSize ?s = suggestedMin (cardCount s) (getItemsPerCard s)"
      "minPoolSize ?s = suggestedMin (cardCount s) (getItemsPerCard s)"
    by (simp_all add: poolSizeEffect_def Let_def)
  have ge: "getItemsPerCard s + 1 \<le> suggestedMin (cardCount s) (getItemsPerCard s)"
    by (simp add: suggestedMin_def)
  then have "int (gridRows s * gridCols s) + 1 \<le> int (length pool)"
    using assms sz(1) by (simp only: getItemsPerCard_def)
  then have lt: "gridRows s * gridCols s < length pool"
    by linarith
  then have le: "gridRows ?s * gridCols ?s \<le> length pool"
    by (simp add: grid)
  have "generateCardsLoop rnd p (gridRows ?s * gridCols ?s) pool cnt i acc \<noteq> None"
    using le by (rule generateCardsLoop_enough)
  moreover obtain cs where "generateCardsLoop rnd 0 (gridRows ?s * gridCols ?s) pool cnt 1 [] = Some cs"
    using generateCardsLoop_ids [OF le, of rnd 0 cnt 1 "[]"] by blast
  then have "generateCards rnd pool cnt ?s = ([], ?s\<lparr>cards := cs\<rparr>)"
    by (simp add: generateCards_def)
  ultimately show ?thesis
    using ge sz lt grid by auto
qed

theorem C10_witness:
  "int (length (samplePool 11)) = poolSize (poolSizeEffect initialState)
   \<and> getItemsPerCard initialState + 1 \<le> minPoolSize (poolSizeEffect initialState)
   \<and> fst (generateCards rndHalf (samplePool 11) 30 (poolSizeEffect initialState)) = []"
proof -
  have "suggestedMin 30 9 = 11"
    by (simp add: suggestedMin_def calculatedMinPool_def initial_search)
  then have h: "int (length (samplePool 11)) = poolSize (poolSizeEffect initialState)"
    by (simp add: samplePool_11 poolSizeEffect_def Let_def getItemsPerCard_def initialState_def)
  obtain newCards where "generateCards rndHalf (samplePool 11) 30 (poolSizeEffect initialState)
                        = ([], (poolSizeEffect initialState)\<lparr>cards := newCards\<rparr>)"
    using C10_suggested_min_exceeds_cells [OF h, of rndHalf 0 30 1 "[]"] by blast
  moreover have "getItemsPerCard initialState + 1 \<le> minPoolSize (poolSizeEffect initialState)"
    using C10_suggested_min_exceeds_cells [OF h, of rndHalf 0 30 1 "[]"] by blast
  ultimately show ?thesis
    using h by simp
qed

section \<open>Text or math\<close>

lemma isTextChar_plain:
  assumes "isTextChar c"
  shows "\<not> isMarkupChar c \<and> \<not> isDigit c"
  using assms unfolding isTextChar_def isMarkupChar_def isDigit_def isWhiteSpace_def
  by (auto simp: word_le_nat_alt)

lemma text_chars_plain:
  assumes "list_all isTextChar content"
  shows "\<not> list_ex isMarkupChar content \<and> \<not> list_ex isDigit content"
  using assms isTextChar_plain by (auto simp: list_all_iff list_ex_iff)

text \<open>
  C3. The classification is a function of the string alone, and the copy in \<^verbatim>\<open>App.tsx\<close>
  and the copy in \<^verbatim>\<open>BingoCard.tsx\<close> return the same boolean for every string; so the
  calling list and the card view classify the answer of an item alike.
\<close>

theorem C3_copies_agree:
  "shouldRenderAsText_App content = shouldRenderAsText_BingoCard content
   \<and> answerIsText ctx item = isTextOverride (isMath ctx) (Item item)"
  by (simp add: shouldRenderAsText_App_def shouldRenderAsText_BingoCard_def
      answerIsText_def isTextOverride_def)

text \<open>The word \<^verbatim>\<open>Herleid\<close> is text and \<^verbatim>\<open>2x\<close> is math, in both copies.\<close>

theorem C3_witness:
  "shouldRenderAsText_App herleid \<and> shouldRenderAsText_BingoCard herleid
   \<and> \<not> shouldRenderAsText_App [0x32, 0x78] \<and> \<not> shouldRenderAsText_BingoCard [0x32, 0x78]"
proof -
  have "shouldRenderAsText_App herleid"
    by (simp add: shouldRenderAsText_App_def herleid_def isMarkupChar_def isDigit_def
        isTextChar_def)
  moreover have "\<not> shouldRenderAsText_App [0x32, 0x78]"
    by (simp add: shouldRenderAsText_App_def isMarkupChar_def isDigit_def)
  ultimately show ?thesis
    using C3_copies_agree [of herleid] C3_copies_agree [of "[0x32, 0x78]"] by simp
qed

text \<open>
  C4, as stated, fails: the empty string has length at most 2 and is classified as text,
  and the string \<^verbatim>\<open>x\<close> consists of one letter and is classified as math.
\<close>

theorem C4_counterexample:
  "length ([] :: jsstring) \<le> 2 \<and> shouldRenderAsText_App [] \<and> shouldRenderAsText_BingoCard []
   \<and> list_all isTextChar [0x78] \<and> \<not> shouldRenderAsText_App [0x78]
   \<and> \<not> shouldRenderAsText_BingoCard [0x78]"
  by (simp add: shouldRenderAsText_App_def shouldRenderAsText_BingoCard_def isMarkupChar_def
      isDigit_def isTextChar_def)

text \<open>
  C4, amended. In both copies: a string with a markup-control character (backslash,
  \<open>=\<close>, \<open>{\<close>, \<open>}\<close>, \<open>^\<close>, \<open>_\<close>) or a digit is math; a non-empty string of length at
  most 2 is math; the empty string is text; a string of length at least 3 made only of
  the letters a-z and A-Z, the code units U+00C0 to U+00FF, white space and the
  punctuation \<^verbatim>\<open>. , ? ! ' " -\<close> is text.
\<close>

theorem C4_heuristic:
  "(list_ex isMarkupChar content \<or> list_ex isDigit content
      \<longrightarrow> \<not> shouldRenderAsText_App content \<and> \<not> shouldRenderAsText_BingoCard content)
   \<and> (content \<noteq> [] \<and> length content \<le> 2
      \<longrightarrow> \<not> shouldRenderAsText_App content \<and> \<not> shouldRenderAsText_BingoCard content)
   \<and> (content = []
      \<longrightarrow> shouldRenderAsText_App content \<and> shouldRenderAsText_BingoCard content)
   \<and> (2 < length content \<and> list_all isTextChar content
      \<longrightarrow> shouldRenderAsText_App content \<and> shouldRenderAsText_BingoCard content)"
proof -
  have "shouldRenderAsText_App content \<and> shouldRenderAsText_BingoCard content"
    if "2 < length content" "list_all isTextChar content"
    using that text_chars_plain [OF that(2)]
    by (auto simp: shouldRenderAsText_App_def shouldRenderAsText_BingoCard_def)
  moreover have "\<not> shouldRenderAsText_App content \<and> \<not> shouldRenderAsText_BingoCard content"
    if "list_ex isMarkupChar content \<or> list_ex isDigit content"
    using that by (auto simp: shouldRenderAsText_App_def shouldRenderAsText_BingoCard_def)
  moreover have "\<not> shouldRenderAsText_App content \<and> \<not> shouldRenderAsText_BingoCard content"
    if "content \<noteq> []" "length content \<le> 2"
    using that by (auto simp: shouldRenderAsText_App_def shouldRenderAsText_BingoCard_def)
  moreover have "shouldRenderAsText_App [] \<and> shouldRenderAsText_BingoCard []"
    by (simp add: shouldRenderAsText_App_def shouldRenderAsText_BingoCard_def)
  ultimately show ?thesis by blast
qed

theorem C4_witness:
  "list_ex isDigit [0x32, 0x78] \<and> \<not> shouldRenderAsText_App [0x32, 0x78]
   \<and> [0x78 :: 16 word] \<noteq> [] \<and> length [0x78 :: 16 word] \<le> 2 \<and> \<not> shouldRenderAsText_App [0x78]
   \<and> 2 < length herleid \<and> list_all isTextChar herleid \<and> shouldRenderAsText_App herleid
   \<and> shouldRenderAsText_BingoCard herleid"
proof -
  have d: "list_ex isDigit [0x32, 0x78]"
    by (simp add: isDigit_def)
  have s: "[0x78 :: 16 word] \<noteq> []" "length [0x78 :: 16 word] \<le> 2"
    by simp_all
  have t: "2 < length herleid" "list_all isTextChar herleid"
    by (simp_all add: herleid_def isTextChar_def)
  show ?thesis
    using d s t C4_heuristic [of "[0x32, 0x78]"] C4_heuristic [of "[0x78]"]
      C4_heuristic [of herleid]
    by blast
qed

end
